theory Spec2Isabelle
  imports Complex_Main
begin

section \<open>The aggregation of a breakdown into one score\<close>

text \<open>
  The miner answers a batch of product ids with one trust score per id. This theory embeds
  the two functions of \<^verbatim>\<open>checkerchain/miner/forward.py\<close>: \<^verbatim>\<open>get_overall_score\<close>, which
  folds the ten criteria of an oracle answer into one score, and \<^verbatim>\<open>forward\<close>, which
  serves a batch from the cache, the product lookup and the oracle.

  Python's \<^verbatim>\<open>float\<close> values are modelled as exact rationals: the literals \<^verbatim>\<open>1.1\<close>,
  \<^verbatim>\<open>0.98\<close> and the weights stand for the decimal fractions they are written as, and
  the arithmetic on them is exact; the rounding error of binary64 arithmetic is outside
  this model. The finite range of \<^verbatim>\<open>float\<close> is modelled where it changes the control
  flow: multiplying an \<^verbatim>\<open>int\<close> by a \<^verbatim>\<open>float\<close> converts the int first, and the conversion
  raises \<^verbatim>\<open>OverflowError\<close> for an int beyond the range. (A product of two floats beyond
  the range is an infinity and no exception; here only negative ones arise, and the clamp
  of line 58 sends them to 0, where it sends the exact product too.) Python's unbounded
  \<^verbatim>\<open>int\<close> is \<^typ>\<open>int\<close>.
\<close>

type_synonym score = rat

text \<open>
  The pydantic models \<^verbatim>\<open>ScoreBreakdown\<close> and \<^verbatim>\<open>ReviewScoreSchema\<close> of
  \<^verbatim>\<open>checkerchain/miner/llm.py\<close>. The fields are plain \<^verbatim>\<open>int\<close>s: the schema puts no range
  on them.
\<close>

record score_breakdown =
  project :: int
  userbase :: int
  utility :: int
  security :: int
  team :: int
  tokenomics :: int
  marketing :: int
  roadmap :: int
  clarity :: int
  partnerships :: int

record review_score_schema =
  product :: string
  overall_score :: int
  breakdown :: score_breakdown

text \<open>
  What \<^verbatim>\<open>get_overall_score\<close> may be handed: an instance of \<^verbatim>\<open>ReviewScoreSchema\<close>, or
  any other object (the \<^verbatim>\<open>isinstance\<close> test of line 17 tells them apart).
\<close>

datatype ai_response = Other | Review review_score_schema

text \<open>
  The keys of \<^verbatim>\<open>ScoreBreakdown.model_fields\<close>, which are also the keys of the
  \<^verbatim>\<open>weights\<close> dictionary, in the order the fields are declared. \<open>getattr\<close> reads the
  field a key names, and \<open>weights\<close> is the dictionary of lines 26 to 37.
\<close>

datatype criterion =
  Project | Userbase | Utility | Security | Team | Tokenomics | Marketing | Roadmap
  | Clarity | Partnerships

fun weights :: "criterion \<Rightarrow> rat" where
  "weights Project = 11 / 10"
| "weights Userbase = 9 / 10"
| "weights Utility = 12 / 10"
| "weights Security = 17 / 10"
| "weights Team = 4 / 10"
| "weights Tokenomics = 11 / 10"
| "weights Marketing = 15 / 10"
| "weights Roadmap = 1"
| "weights Clarity = 4 / 10"
| "weights Partnerships = 7 / 10"

definition field_names :: "criterion list" where
  "field_names =
     [Project, Userbase, Utility, Security, Team, Tokenomics, Marketing, Roadmap, Clarity,
      Partnerships]"

fun getattr :: "score_breakdown \<Rightarrow> criterion \<Rightarrow> int" where
  "getattr b Project = project b"
| "getattr b Userbase = userbase b"
| "getattr b Utility = utility b"
| "getattr b Security = security b"
| "getattr b Team = team b"
| "getattr b Tokenomics = tokenomics b"
| "getattr b Marketing = marketing b"
| "getattr b Roadmap = roadmap b"
| "getattr b Clarity = clarity b"
| "getattr b Partnerships = partnerships b"

text \<open>
  The exception the aggregation can raise, and the least magnitude of an int that CPython
  does not convert to a float: the conversion rounds to the nearest binary64 value, ties
  to even, and \<open>2 ^ 1024 - 2 ^ 970\<close> lies half-way between the largest float and
  \<open>2 ^ 1024\<close>.
\<close>

datatype error = OverflowError

definition float_limit :: int where
  "float_limit = 2 ^ 1024 - 2 ^ 970"

text \<open>\<^verbatim>\<open>score * 1.1\<close> and \<^verbatim>\<open>score * 0.98\<close> of lines 48 and 50, for an int \<open>n\<close>.\<close>

definition int_times_float :: "int \<Rightarrow> rat \<Rightarrow> error + rat" where
  "int_times_float n x =
     (if float_limit \<le> \<bar>n\<bar> then Inl OverflowError else Inr (of_int n * x))"

text \<open>The body of the normalisation loop, lines 47 to 52.\<close>

definition normalized_score :: "int \<Rightarrow> error + rat" where
  "normalized_score score =
     (if score \<le> 2 then int_times_float score (11 / 10)
      else if score \<ge> 9 then
        (case int_times_float score (98 / 100) of
           Inl e \<Rightarrow> Inl e
         | Inr x \<Rightarrow> Inr (min 10 x))
      else Inr (of_int score))"

text \<open>
  The loop of lines 45 to 52 over the items of \<^verbatim>\<open>scores\<close>, building
  \<^verbatim>\<open>normalized_scores\<close>: the first exception leaves the loop and the function.
\<close>

fun normalize_scores :: "(criterion \<times> int) list \<Rightarrow> error + (criterion \<times> rat) list" where
  "normalize_scores [] = Inr []"
| "normalize_scores ((key, score) # rest) =
     (case normalized_score score of
        Inl e \<Rightarrow> Inl e
      | Inr n \<Rightarrow>
          (case normalize_scores rest of
             Inl e \<Rightarrow> Inl e
           | Inr ns \<Rightarrow> Inr ((key, n) # ns)))"

text \<open>Lines 39 to 55: the value of \<^verbatim>\<open>overall_score\<close> before it is clamped.\<close>

definition weighted_sum :: "score_breakdown \<Rightarrow> error + rat" where
  "weighted_sum b =
     (case normalize_scores (map (\<lambda>field. (field, getattr b field)) field_names) of
        Inl e \<Rightarrow> Inl e
      | Inr normalized_scores \<Rightarrow>
          Inr (sum_list (map (\<lambda>(key, n). n * weights key) normalized_scores)))"

text \<open>
  Python's \<^verbatim>\<open>round(x, 2)\<close>: to the nearest multiple of one hundredth, a tie going to the
  even neighbour.
\<close>

definition py_round2 :: "rat \<Rightarrow> rat" where
  "py_round2 x =
     (let y = x * 100; f = \<lfloor>y\<rfloor>; d = y - of_int f
      in of_int (if d < 1 / 2 then f else if 1 / 2 < d then f + 1
                 else if even f then f else f + 1) / 100)"

text \<open>
  \<^verbatim>\<open>get_overall_score\<close>, lines 16 to 60: \<open>Inl\<close> is the exception it raises, \<open>Inr None\<close>
  is Python's \<^verbatim>\<open>None\<close>.
\<close>

definition get_overall_score :: "ai_response \<Rightarrow> error + score option" where
  "get_overall_score ai_response =
     (case ai_response of
        Other \<Rightarrow> Inr None
      | Review r \<Rightarrow>
          (case weighted_sum (breakdown r) of
             Inl e \<Rightarrow> Inl e
           | Inr overall \<Rightarrow> Inr (Some (py_round2 (max 0 (min 100 overall))))))"

subsection \<open>The aggregate of the specification\<close>

text \<open>
  The reference definition, in the words of the specification: each criterion is
  normalised, multiplied by its weight of the table, the products are summed, the sum is
  clamped to the range from 0 to 100 and rounded to two decimal places. The specification
  names no rule for ties; \<open>spec_round2\<close> rounds them up.
\<close>

definition spec_normalized :: "int \<Rightarrow> rat" where
  "spec_normalized v =
     (if v \<le> 2 then of_int v * (11 / 10)
      else if v \<ge> 9 then min 10 (of_int v * (98 / 100))
      else of_int v)"

definition spec_round2 :: "rat \<Rightarrow> rat" where
  "spec_round2 x = of_int (round (x * 100)) / 100"

definition aggregate :: "score_breakdown \<Rightarrow> rat" where
  "aggregate b =
     spec_round2 (max 0 (min 100
       (spec_normalized (project b) * (11 / 10) + spec_normalized (marketing b) * (15 / 10)
        + spec_normalized (userbase b) * (9 / 10) + spec_normalized (roadmap b) * 1
        + spec_normalized (utility b) * (12 / 10) + spec_normalized (clarity b) * (4 / 10)
        + spec_normalized (security b) * (17 / 10) + spec_normalized (partnerships b) * (7 / 10)
        + spec_normalized (team b) * (4 / 10) + spec_normalized (tokenomics b) * (11 / 10))))"

text \<open>
  The same weighted sum over the list of the fields, and the breakdowns whose criteria
  are all within the range of \<^verbatim>\<open>float\<close>.
\<close>

definition exact_sum :: "score_breakdown \<Rightarrow> rat" where
  "exact_sum b =
     sum_list (map (\<lambda>key. spec_normalized (getattr b key) * weights key) field_names)"

definition in_float_range :: "score_breakdown \<Rightarrow> bool" where
  "in_float_range b = list_all (\<lambda>key. \<bar>getattr b key\<bar> < float_limit) field_names"

text \<open>
  The breakdown with one value in every field, and the breakdowns the specification calls
  valid: every criterion within 0 and 10.
\<close>

definition uniform :: "int \<Rightarrow> score_breakdown" where
  "uniform v = \<lparr>project = v, userbase = v, utility = v, security = v, team = v,
     tokenomics = v, marketing = v, roadmap = v, clarity = v, partnerships = v\<rparr>"

definition valid_breakdown :: "score_breakdown \<Rightarrow> bool" where
  "valid_breakdown b =
     list_all (\<lambda>key. 0 \<le> getattr b key \<and> getattr b key \<le> 10) field_names"

section \<open>Serving a batch\<close>

text \<open>
  \<^verbatim>\<open>forward\<close> talks to two collaborators that are not part of the two source files:
  \<^verbatim>\<open>fetch_product_data\<close>, the product lookup (its module is absent; by the specification
  it answers with a product record or with nothing), and the oracle behind
  \<^verbatim>\<open>generate_review_score\<close>. Both are calls to the outside and may answer differently
  each time, so their answers are parameters of the model. A lookup is identified by the
  batch position it is made for and by whether it is the lookup of the partition loop
  (\<open>First\<close>, line 85) or the lookup that queues a retry (\<open>Retry\<close>, lines 111, 124 and
  135); a coroutine of \<^verbatim>\<open>generate_review_score\<close> likewise by the position it is
  created for and its wave. Every behaviour of the collaborators is one such pair of
  functions. The product record is opaque (a type variable), and a record that is found
  counts as true in the tests \<^verbatim>\<open>if product:\<close>.
\<close>

datatype attempt = First | Retry

text \<open>
  One entry of what \<^verbatim>\<open>asyncio.gather(..., return_exceptions=True)\<close> returns: the exception
  the coroutine raised, or the value it returned.
\<close>

datatype 'a settled = Raised | Returned 'a

record 'p collaborators =
  fetch_product_data :: "attempt \<Rightarrow> nat \<Rightarrow> string \<Rightarrow> 'p option"
  generate_review_score :: "attempt \<Rightarrow> nat \<Rightarrow> 'p \<Rightarrow> ai_response settled"

text \<open>
  The variables of \<^verbatim>\<open>forward\<close> and the module's global cache \<^verbatim>\<open>miner_preds\<close>. A
  coroutine that has been created and not yet awaited is the pair of the position it was
  created for and the product record it was given. \<open>trace\<close> is not a variable of the source: it
  records, in program order, every call of a collaborator and every assignment to the
  cache, with the batch position the call is made for, so that statements about calls can
  be made.
\<close>

datatype event =
  Lookup attempt nat string
  | Invoke attempt nat string
  | Write nat string score

record 'p state =
  predictions :: "score option list"
  miner_preds :: "string \<rightharpoonup> score"
  product_ids :: "(nat \<times> string) list"
  tasks :: "(nat \<times> 'p) list"
  retry_tasks :: "(nat \<times> 'p) list"
  retry_indices :: "(nat \<times> string \<times> nat) list"
  trace :: "event list"

text \<open>
  Reading and assigning a list element; \<open>None\<close> is the \<^verbatim>\<open>IndexError\<close> Python raises
  out of range. \<^verbatim>\<open>forward\<close> catches no exception of its own statements, so an
  \<^verbatim>\<open>IndexError\<close> would leave it: the result \<open>None\<close> of a step, a loop or \<open>forward\<close>.
\<close>

definition subscript :: "'a list \<Rightarrow> nat \<Rightarrow> 'a option" where
  "subscript xs i = (if i < length xs then Some (xs ! i) else None)"

definition assign :: "'a list \<Rightarrow> nat \<Rightarrow> 'a \<Rightarrow> 'a list option" where
  "assign xs i v = (if i < length xs then Some (xs[i := v]) else None)"

fun for_each :: "('a \<Rightarrow> 's \<Rightarrow> 's option) \<Rightarrow> 'a list \<Rightarrow> 's \<Rightarrow> 's option" where
  "for_each body [] st = Some st"
| "for_each body (x # xs) st =
     (case body x st of None \<Rightarrow> None | Some st' \<Rightarrow> for_each body xs st')"

text \<open>The body of the partition loop, lines 78 to 91.\<close>

fun partition_step :: "'p collaborators \<Rightarrow> nat \<times> string \<Rightarrow> 'p state \<Rightarrow> 'p state option" where
  "partition_step env (i, product_id) st =
     (case miner_preds st product_id of
        Some cached \<Rightarrow>
          map_option (\<lambda>ps. st\<lparr>predictions := ps\<rparr>) (assign (predictions st) i (Some cached))
      | None \<Rightarrow>
          (case fetch_product_data env First i product_id of
             Some record \<Rightarrow>
               Some (st\<lparr>product_ids := product_ids st @ [(i, product_id)],
                        tasks := tasks st @ [(i, record)],
                        trace := trace st @ [Lookup First i product_id,
                                             Invoke First i product_id]\<rparr>)
           | None \<Rightarrow>
               map_option
                 (\<lambda>ps. st\<lparr>predictions := ps, trace := trace st @ [Lookup First i product_id]\<rparr>)
                 (assign (predictions st) i None)))"

text \<open>
  Queuing a retry: the same four lines stand at lines 111 to 114, 124 to 127 and 135 to
  138.
\<close>

definition queue_retry ::
  "'p collaborators \<Rightarrow> nat \<Rightarrow> string \<Rightarrow> nat \<Rightarrow> 'p state \<Rightarrow> 'p state" where
  "queue_retry env i product_id task_index st =
     (case fetch_product_data env Retry i product_id of
        Some record \<Rightarrow>
          st\<lparr>retry_tasks := retry_tasks st @ [(i, record)],
             retry_indices := retry_indices st @ [(i, product_id, task_index)],
             trace := trace st @ [Lookup Retry i product_id, Invoke Retry i product_id]\<rparr>
      | None \<Rightarrow> st\<lparr>trace := trace st @ [Lookup Retry i product_id]\<rparr>)"

text \<open>
  The body of the loop over the results of the first wave, lines 105 to 138. The handler
  of lines 132 to 138 catches every exception of lines 118 to 131 and queues a retry: the
  exception of \<open>get_overall_score\<close>, and the \<^verbatim>\<open>IndexError\<close> of the assignment to
  \<^verbatim>\<open>predictions[i]\<close>, which comes first of the three statements of the branch, so
  nothing has been written when it is caught. Line 106 stands before the \<^verbatim>\<open>try\<close>.
\<close>

fun first_wave_step ::
  "'p collaborators \<Rightarrow> nat \<times> ai_response settled \<Rightarrow> 'p state \<Rightarrow> 'p state option" where
  "first_wave_step env (task_index, result) st =
     (case subscript (product_ids st) task_index of
        None \<Rightarrow> None
      | Some (i, product_id) \<Rightarrow>
          (case result of
             Raised \<Rightarrow> Some (queue_retry env i product_id task_index st)
           | Returned r \<Rightarrow>
               (case get_overall_score r of
                  Inl e \<Rightarrow> Some (queue_retry env i product_id task_index st)
                | Inr None \<Rightarrow> Some (queue_retry env i product_id task_index st)
                | Inr (Some score) \<Rightarrow>
                    if score < 0 \<or> score > 100
                    then Some (queue_retry env i product_id task_index st)
                    else
                      (case assign (predictions st) i (Some score) of
                         None \<Rightarrow> Some (queue_retry env i product_id task_index st)
                       | Some ps \<Rightarrow>
                           Some (st\<lparr>predictions := ps,
                                   miner_preds := (miner_preds st)(product_id \<mapsto> score),
                                   trace := trace st @ [Write i product_id score]\<rparr>)))))"

text \<open>
  The fallback of lines 162 to 164 and, again, 169 to 171, and the three statements that
  store a score, lines 156 and 157, 163 and 164, 170 and 171. The assignment to
  \<^verbatim>\<open>predictions[i]\<close> is the first of them: were it to raise \<^verbatim>\<open>IndexError\<close> at line 156 or
  163, the handler of line 166 would run the same assignment at line 170 and raise it
  again, this time out of \<^verbatim>\<open>forward\<close>; so \<open>store\<close> is \<open>None\<close> out of range.
\<close>

definition fallback_score :: score where
  "fallback_score = 50"

definition store :: "nat \<Rightarrow> string \<Rightarrow> score \<Rightarrow> 'p state \<Rightarrow> 'p state option" where
  "store i product_id score st =
     map_option
       (\<lambda>ps. st\<lparr>predictions := ps,
                 miner_preds := (miner_preds st)(product_id \<mapsto> score),
                 trace := trace st @ [Write i product_id score]\<rparr>)
       (assign (predictions st) i (Some score))"

text \<open>
  The body of the loop over the results of the retry wave, lines 145 to 172. An
  exception that the retry returned is raised again at line 150, and the handler of lines
  166 to 172 gives the fallback for it and for an exception of \<open>get_overall_score\<close>.
  Line 146 stands before the \<^verbatim>\<open>try\<close>.
\<close>

fun retry_step ::
  "'p collaborators \<Rightarrow> nat \<times> ai_response settled \<Rightarrow> 'p state \<Rightarrow> 'p state option" where
  "retry_step env (retry_index, retry_result) st =
     (case subscript (retry_indices st) retry_index of
        None \<Rightarrow> None
      | Some (i, product_id, original_index) \<Rightarrow>
          (case retry_result of
             Raised \<Rightarrow> store i product_id fallback_score st
           | Returned r \<Rightarrow>
               (case get_overall_score r of
                  Inl e \<Rightarrow> store i product_id fallback_score st
                | Inr (Some score) \<Rightarrow>
                    if 0 \<le> score \<and> score \<le> 100 then store i product_id score st
                    else store i product_id fallback_score st
                | Inr None \<Rightarrow> store i product_id fallback_score st)))"

text \<open>
  \<^verbatim>\<open>asyncio.gather\<close> awaits the coroutines and returns their outcomes in the order of its
  arguments, whatever the order in which they finish.
\<close>

definition gather ::
  "'p collaborators \<Rightarrow> attempt \<Rightarrow> (nat \<times> 'p) list \<Rightarrow> ai_response settled list" where
  "gather env a coroutines = map (\<lambda>(i, record). generate_review_score env a i record) coroutines"

definition initial_state :: "nat \<Rightarrow> (string \<rightharpoonup> score) \<Rightarrow> 'p state" where
  "initial_state n cache =
     \<lparr>predictions = replicate n None, miner_preds = cache, product_ids = [], tasks = [],
      retry_tasks = [], retry_indices = [], trace = []\<rparr>"

text \<open>
  \<^verbatim>\<open>forward\<close>, lines 63 to 179, on the query of the synapse and the cache as it stands
  when the batch arrives. The result is the final state: its \<open>predictions\<close> are the
  response written to the synapse, its \<open>miner_preds\<close> the cache the batch leaves behind.
  One batch is served at a time: no other batch touches the cache while this one awaits
  its waves.
\<close>

definition forward ::
  "'p collaborators \<Rightarrow> string list \<Rightarrow> (string \<rightharpoonup> score) \<Rightarrow> 'p state option" where
  "forward env query cache =
     (case for_each (partition_step env) (enumerate 0 query)
             (initial_state (length query) cache) of
        None \<Rightarrow> None
      | Some st1 \<Rightarrow>
          if tasks st1 = [] then Some st1
          else
            (case for_each (first_wave_step env)
                    (enumerate 0 (gather env First (tasks st1))) st1 of
               None \<Rightarrow> None
             | Some st2 \<Rightarrow>
                 if retry_tasks st2 \<noteq> []
                 then for_each (retry_step env)
                        (enumerate 0 (gather env Retry (retry_tasks st2))) st2
                 else Some st2))"

section \<open>What a batch does, position by position\<close>

text \<open>
  The definitions of this section are not translations of source lines: they describe
  the outcome of \<^verbatim>\<open>forward\<close> for one batch position from the answers the collaborators
  give for that position, and the theorems below prove that the loops of \<open>forward\<close>
  compute exactly this.

  \<open>accepted\<close> is the score of an attempt that passes the check of lines 121 and 155
  (an attempt that raised, or whose aggregation raised, has none);
  \<open>attempt_score\<close> is the accepted score of the attempt made for a position, if its
  lookup finds the product.
\<close>

definition accepted :: "ai_response settled \<Rightarrow> score option" where
  "accepted result =
     (case result of
        Raised \<Rightarrow> None
      | Returned r \<Rightarrow>
          (case get_overall_score r of
             Inl e \<Rightarrow> None
           | Inr None \<Rightarrow> None
           | Inr (Some s) \<Rightarrow> if 0 \<le> s \<and> s \<le> 100 then Some s else None))"

definition attempt_score :: "'p collaborators \<Rightarrow> attempt \<Rightarrow> nat \<times> string \<Rightarrow> score option" where
  "attempt_score env a = (\<lambda>(i, pid).
     case fetch_product_data env a i pid of
       None \<Rightarrow> None
     | Some record \<Rightarrow> accepted (generate_review_score env a i record))"

text \<open>The positions that get a coroutine in the first wave, and those that get one in
  the retry wave.\<close>

definition dispatched :: "'p collaborators \<Rightarrow> (string \<rightharpoonup> score) \<Rightarrow> nat \<times> string \<Rightarrow> bool" where
  "dispatched env cache = (\<lambda>(i, pid).
     cache pid = None \<and> fetch_product_data env First i pid \<noteq> None)"

definition requeued :: "'p collaborators \<Rightarrow> nat \<times> string \<Rightarrow> bool" where
  "requeued env = (\<lambda>(i, pid).
     attempt_score env First (i, pid) = None \<and> fetch_product_data env Retry i pid \<noteq> None)"

definition launch :: "'p collaborators \<Rightarrow> attempt \<Rightarrow> nat \<times> string \<Rightarrow> nat \<times> 'p" where
  "launch env a = (\<lambda>(i, pid). (i, the (fetch_product_data env a i pid)))"

definition outcome :: "'p collaborators \<Rightarrow> attempt \<Rightarrow> nat \<times> string \<Rightarrow> ai_response settled" where
  "outcome env a = (\<lambda>(i, pid).
     generate_review_score env a i (the (fetch_product_data env a i pid)))"

text \<open>The events of one position in the partition loop, in the loop over the results of
  the first wave, and in the loop over the results of the retry wave.\<close>

definition partition_events ::
  "'p collaborators \<Rightarrow> (string \<rightharpoonup> score) \<Rightarrow> nat \<times> string \<Rightarrow> event list" where
  "partition_events env cache = (\<lambda>(i, pid).
     case cache pid of
       Some s \<Rightarrow> []
     | None \<Rightarrow>
         (case fetch_product_data env First i pid of
            Some record \<Rightarrow> [Lookup First i pid, Invoke First i pid]
          | None \<Rightarrow> [Lookup First i pid]))"

definition first_wave_events :: "'p collaborators \<Rightarrow> nat \<times> string \<Rightarrow> event list" where
  "first_wave_events env = (\<lambda>(i, pid).
     case attempt_score env First (i, pid) of
       Some s \<Rightarrow> [Write i pid s]
     | None \<Rightarrow>
         (case fetch_product_data env Retry i pid of
            Some record \<Rightarrow> [Lookup Retry i pid, Invoke Retry i pid]
          | None \<Rightarrow> [Lookup Retry i pid]))"

definition retry_events :: "'p collaborators \<Rightarrow> nat \<times> string \<Rightarrow> event list" where
  "retry_events env = (\<lambda>(i, pid).
     [Write i pid (case attempt_score env Retry (i, pid) of
                     Some s \<Rightarrow> s | None \<Rightarrow> fallback_score)])"

definition batch_trace ::
  "'p collaborators \<Rightarrow> (string \<rightharpoonup> score) \<Rightarrow> string list \<Rightarrow> event list" where
  "batch_trace env cache query =
     concat (map (partition_events env cache) (enumerate 0 query))
     @ concat (map (first_wave_events env) (filter (dispatched env cache) (enumerate 0 query)))
     @ concat (map (retry_events env)
         (filter (requeued env) (filter (dispatched env cache) (enumerate 0 query))))"

text \<open>All events of one position, in program order.\<close>

definition item_events ::
  "'p collaborators \<Rightarrow> (string \<rightharpoonup> score) \<Rightarrow> nat \<times> string \<Rightarrow> event list" where
  "item_events env cache x =
     partition_events env cache x
     @ (if dispatched env cache x then first_wave_events env x else [])
     @ (if dispatched env cache x \<and> requeued env x then retry_events env x else [])"

text \<open>The effect of an event on the response and on the cache.\<close>

fun write_prediction :: "event \<Rightarrow> score option list \<Rightarrow> score option list" where
  "write_prediction (Write i pid s) ps = ps[i := Some s]"
| "write_prediction e ps = ps"

fun write_cache :: "event \<Rightarrow> (string \<rightharpoonup> score) \<Rightarrow> (string \<rightharpoonup> score)" where
  "write_cache (Write i pid s) m = m(pid \<mapsto> s)"
| "write_cache e m = m"

fun event_pos :: "event \<Rightarrow> nat" where
  "event_pos (Lookup a i pid) = i"
| "event_pos (Invoke a i pid) = i"
| "event_pos (Write i pid s) = i"

fun event_id :: "event \<Rightarrow> string" where
  "event_id (Lookup a i pid) = pid"
| "event_id (Invoke a i pid) = pid"
| "event_id (Write i pid s) = pid"

text \<open>
  The response slot of a position holding the id \<open>pid\<close>, from the cache as the batch
  finds it and the collaborators' answers for that position alone.
\<close>

definition slot ::
  "'p collaborators \<Rightarrow> (string \<rightharpoonup> score) \<Rightarrow> nat \<times> string \<Rightarrow> score option" where
  "slot env cache = (\<lambda>(i, pid).
     case cache pid of
       Some s \<Rightarrow> Some s
     | None \<Rightarrow>
         (case fetch_product_data env First i pid of
            None \<Rightarrow> None
          | Some record \<Rightarrow>
              (case accepted (generate_review_score env First i record) of
                 Some s \<Rightarrow> Some s
               | None \<Rightarrow>
                   (case fetch_product_data env Retry i pid of
                      None \<Rightarrow> None
                    | Some record' \<Rightarrow>
                        (case accepted (generate_review_score env Retry i record') of
                           Some s \<Rightarrow> Some s
                         | None \<Rightarrow> Some fallback_score)))))"

text \<open>
  All events of a list of positions: the three loops run one after the other, each over
  the positions that reach it. The trace of a batch is \<open>events_of\<close> of all its positions,
  and the events of one position are \<open>events_of\<close> of that position alone.
\<close>

definition events_of ::
  "'p collaborators \<Rightarrow> (string \<rightharpoonup> score) \<Rightarrow> (nat \<times> string) list \<Rightarrow> event list" where
  "events_of env cache xs =
     concat (map (partition_events env cache) xs)
     @ concat (map (first_wave_events env) (filter (dispatched env cache) xs))
     @ concat (map (retry_events env)
         (filter (requeued env) (filter (dispatched env cache) xs)))"

text \<open>
  The state after the partition loop has run over a prefix \<open>xs\<close> of a query of length \<open>n\<close>;
  the state after the loop over the first wave has handled the results of the coroutines
  \<open>ps\<close>, started in \<open>st\<close>; and the state after the retry loop has handled those of \<open>rs\<close>.
  \<open>first_wave_ids\<close> and \<open>retry_ids\<close> are the lists \<^verbatim>\<open>product_ids\<close> and \<^verbatim>\<open>retry_indices\<close> as
  the loops leave them.
\<close>

definition cf1 :: "'p collaborators \<Rightarrow> (string \<rightharpoonup> score) \<Rightarrow> nat \<Rightarrow> string list \<Rightarrow> 'p state" where
  "cf1 env cache n xs =
     \<lparr>predictions = map cache xs @ replicate (n - length xs) None,
      miner_preds = cache,
      product_ids = filter (dispatched env cache) (enumerate 0 xs),
      tasks = map (launch env First) (filter (dispatched env cache) (enumerate 0 xs)),
      retry_tasks = [], retry_indices = [],
      trace = concat (map (partition_events env cache) (enumerate 0 xs))\<rparr>"

definition cf2 :: "'p collaborators \<Rightarrow> 'p state \<Rightarrow> (nat \<times> string) list \<Rightarrow> 'p state" where
  "cf2 env st ps =
     st\<lparr>predictions :=
          fold write_prediction (concat (map (first_wave_events env) ps)) (predictions st),
        miner_preds :=
          fold write_cache (concat (map (first_wave_events env) ps)) (miner_preds st),
        retry_tasks := retry_tasks st
          @ map (launch env Retry \<circ> snd) (filter (requeued env \<circ> snd) (enumerate 0 ps)),
        retry_indices := retry_indices st
          @ map (\<lambda>(k, i, pid). (i, pid, k)) (filter (requeued env \<circ> snd) (enumerate 0 ps)),
        trace := trace st @ concat (map (first_wave_events env) ps)\<rparr>"

definition cf3 :: "'p collaborators \<Rightarrow> 'p state \<Rightarrow> (nat \<times> string \<times> nat) list \<Rightarrow> 'p state" where
  "cf3 env st rs =
     st\<lparr>predictions :=
          fold write_prediction
            (concat (map (\<lambda>(i, pid, k). retry_events env (i, pid)) rs)) (predictions st),
        miner_preds :=
          fold write_cache
            (concat (map (\<lambda>(i, pid, k). retry_events env (i, pid)) rs)) (miner_preds st),
        trace := trace st @ concat (map (\<lambda>(i, pid, k). retry_events env (i, pid)) rs)\<rparr>"

definition first_wave_ids ::
  "'p collaborators \<Rightarrow> (string \<rightharpoonup> score) \<Rightarrow> string list \<Rightarrow> (nat \<times> string) list" where
  "first_wave_ids env cache query = filter (dispatched env cache) (enumerate 0 query)"

definition retry_ids ::
  "'p collaborators \<Rightarrow> (string \<rightharpoonup> score) \<Rightarrow> string list \<Rightarrow> (nat \<times> string \<times> nat) list" where
  "retry_ids env cache query =
     map (\<lambda>(k, i, pid). (i, pid, k))
       (filter (requeued env \<circ> snd) (enumerate 0 (first_wave_ids env cache query)))"

text \<open>
  Counting calls in a trace: the oracle invocations of a wave made for a position, and
  those made for a product id.
\<close>

fun invoked :: "attempt \<Rightarrow> nat \<Rightarrow> event \<Rightarrow> bool" where
  "invoked a i (Invoke b j pid) = (b = a \<and> j = i)"
| "invoked a i e = False"

definition oracle_calls :: "attempt \<Rightarrow> nat \<Rightarrow> event list \<Rightarrow> nat" where
  "oracle_calls a i tr = length (filter (invoked a i) tr)"



definition valid_score :: "score \<Rightarrow> bool" where
  "valid_score s \<longleftrightarrow> 0 \<le> s \<and> s \<le> 100"

subsection \<open>Collaborators for the concrete runs\<close>

text \<open>
  Four behaviours of the collaborators, with the unit type for the product record: every
  lookup finds the product and every oracle call raises; every lookup finds the product and
  every oracle call returns a breakdown with one value in all fields; the same, but the
  lookups made for the positions below \<open>n\<close> find nothing; and the collaborators of the
  example of the specification, where the product of the id B does not exist and the
  oracle's breakdown aggregates to 77.5.
\<close>

text \<open>An int beyond the range of \<^verbatim>\<open>float\<close>, for the runs in which the aggregation raises.\<close>

definition huge :: int where
  "huge = 2 ^ 1024"

definition always_failing :: "unit collaborators" where
  "always_failing =
     \<lparr>fetch_product_data = (\<lambda>a i pid. Some ()),
      generate_review_score = (\<lambda>a i record. Raised)\<rparr>"

definition always_scoring :: "int \<Rightarrow> unit collaborators" where
  "always_scoring v =
     \<lparr>fetch_product_data = (\<lambda>a i pid. Some ()),
      generate_review_score = (\<lambda>a i record.
        Returned (Review \<lparr>product = ''P'', overall_score = 0, breakdown = uniform v\<rparr>))\<rparr>"

definition found_from :: "nat \<Rightarrow> int \<Rightarrow> unit collaborators" where
  "found_from n v =
     \<lparr>fetch_product_data = (\<lambda>a i pid. if i < n then None else Some ()),
      generate_review_score = (\<lambda>a i record.
        Returned (Review \<lparr>product = ''P'', overall_score = 0, breakdown = uniform v\<rparr>))\<rparr>"

definition spec_example :: "unit collaborators" where
  "spec_example =
     \<lparr>fetch_product_data = (\<lambda>a i pid. if pid = ''B'' then None else Some ()),
      generate_review_score = (\<lambda>a i record.
        Returned (Review \<lparr>product = ''C'', overall_score = 78,
          breakdown = (uniform 8)\<lparr>security := 7, team := 6\<rparr>\<rparr>))\<rparr>"

section \<open>Properties of the aggregation\<close>

text \<open>
  Every weighted sum is a whole number of five-hundredths, so a hundred times the sum is
  never half-way between two integers: the tie rule of the rounding is never used.
\<close>

lemma spec_normalized_fiftieths: "\<exists>m::int. spec_normalized v = of_int m / 50"
proof -
  consider "v \<le> 2" | "v = 9" | "v = 10" | "v \<ge> 11" | "2 < v \<and> v < 9" by linarith
  then show ?thesis
  proof cases
    case 1
    then have "spec_normalized v = of_int (55 * v) / 50" by (simp add: spec_normalized_def)
    then show ?thesis by blast
  next
    case 2
    then have "spec_normalized v = of_int 441 / 50" by (simp add: spec_normalized_def)
    then show ?thesis by blast
  next
    case 3
    then have "spec_normalized v = of_int 490 / 50" by (simp add: spec_normalized_def)
    then show ?thesis by blast
  next
    case 4
    then have "(11::rat) \<le> of_int v" by linarith
    then have "(10::rat) \<le> of_int v * (98 / 100)" by simp
    with 4 have "spec_normalized v = of_int 500 / 50" by (simp add: spec_normalized_def)
    then show ?thesis by blast
  next
    case 5
    then have "spec_normalized v = of_int (50 * v) / 50" by (simp add: spec_normalized_def)
    then show ?thesis by blast
  qed
qed

lemma weighted_term_form: "\<exists>m::int. spec_normalized v * weights key = of_int m / 500"
proof -
  obtain n :: int where n: "spec_normalized v = of_int n / 50"
    using spec_normalized_fiftieths by blast
  obtain k :: int where k: "weights key = of_int k / 10"
  proof (cases key)
    case Roadmap
    then have "weights key = of_int 10 / 10" by simp
    then show ?thesis using that by blast
  qed (auto intro: that [of 11] that [of 9] that [of 12] that [of 17] that [of 4] that [of 15] that [of 7])
  have "spec_normalized v * weights key = of_int (n * k) / 500" by (simp add: n k)
  then show ?thesis by blast
qed

lemma sum_list_form:
  "\<exists>m::int. sum_list (map (\<lambda>key. spec_normalized (g key) * weights key) ks) = of_int m / 500"
proof (induction ks)
  case Nil
  have "(0::rat) = of_int 0 / 500" by simp
  then show ?case by (metis list.simps(8) sum_list.Nil)
next
  case (Cons key ks)
  then obtain m :: int
    where m: "sum_list (map (\<lambda>key. spec_normalized (g key) * weights key) ks) = of_int m / 500"
    by blast
  obtain t :: int where t: "spec_normalized (g key) * weights key = of_int t / 500"
    using weighted_term_form by blast
  have "sum_list (map (\<lambda>key. spec_normalized (g key) * weights key) (key # ks))
        = of_int (t + m) / 500"
    by (simp add: m t add_divide_distrib)
  then show ?case by blast
qed

lemma exact_sum_form: "\<exists>m::int. exact_sum b = of_int m / 500"
  unfolding exact_sum_def by (rule sum_list_form)

lemma clamp_form:
  assumes "x = of_int (m::int) / (500::rat)"
  shows "\<exists>n::int. max 0 (min 100 x) = of_int n / (500::rat)"
proof -
  have "max 0 (min 100 x) = x \<or> max 0 (min 100 x) = 0 \<or> max 0 (min 100 x) = 100"
    by (auto simp: max_def min_def)
  moreover have "(0::rat) = of_int 0 / 500" by simp
  moreover have "(100::rat) = of_int 50000 / 500" by simp
  ultimately show ?thesis using assms by metis
qed

lemma fifth_not_half: "(of_int (m::int) / 5 :: rat) - of_int (k::int) \<noteq> 1 / 2"
proof
  assume "(of_int m / 5 :: rat) - of_int k = 1 / 2"
  then have "(of_int (2 * m) :: rat) = of_int (10 * k + 5)" by (simp add: field_simps)
  then have "2 * m = 10 * k + 5" by (simp only: of_int_eq_iff)
  then show False by presburger
qed

lemma py_round2_no_tie:
  assumes "x * 100 - of_int \<lfloor>x * 100\<rfloor> \<noteq> (1 / 2 :: rat)"
  shows "py_round2 x = spec_round2 x"
proof -
  let ?y = "x * 100"
  let ?f = "\<lfloor>?y\<rfloor>"
  have lo: "of_int ?f \<le> ?y" and hi: "?y < of_int ?f + 1" by linarith+
  show ?thesis
  proof (cases "?y - of_int ?f < 1 / 2")
    case True
    have "round ?y = ?f" unfolding round_def using True lo by (intro floor_unique) linarith+
    with True show ?thesis by (simp add: py_round2_def spec_round2_def Let_def)
  next
    case False
    with assms have gt: "1 / 2 < ?y - of_int ?f" by linarith
    have "round ?y = ?f + 1" unfolding round_def using gt hi by (intro floor_unique) (simp, linarith)+
    with gt False show ?thesis by (simp add: py_round2_def spec_round2_def Let_def)
  qed
qed

lemma py_round2_spec: "x = of_int (m::int) / 500 \<Longrightarrow> py_round2 x = spec_round2 x"
proof (rule py_round2_no_tie)
  assume "x = of_int m / 500"
  then have "x * 100 = of_int m / 5" by simp
  then show "x * 100 - of_int \<lfloor>x * 100\<rfloor> \<noteq> 1 / 2" using fifth_not_half by metis
qed

lemma exact_sum_unfold:
  "exact_sum b =
     spec_normalized (project b) * (11 / 10) + spec_normalized (marketing b) * (15 / 10)
        + spec_normalized (userbase b) * (9 / 10) + spec_normalized (roadmap b) * 1
        + spec_normalized (utility b) * (12 / 10) + spec_normalized (clarity b) * (4 / 10)
        + spec_normalized (security b) * (17 / 10) + spec_normalized (partnerships b) * (7 / 10)
        + spec_normalized (team b) * (4 / 10) + spec_normalized (tokenomics b) * (11 / 10)"
  by (simp add: exact_sum_def field_names_def)

lemma exact_sum_aggregate:
  "py_round2 (max 0 (min 100 (exact_sum b))) = aggregate b"
proof -
  obtain m :: int where "exact_sum b = of_int m / 500"
    using exact_sum_form by blast
  then obtain n :: int where "max 0 (min 100 (exact_sum b)) = of_int n / 500"
    using clamp_form by blast
  then have "py_round2 (max 0 (min 100 (exact_sum b)))
             = spec_round2 (max 0 (min 100 (exact_sum b)))"
    by (rule py_round2_spec)
  then show ?thesis
    by (simp add: aggregate_def exact_sum_unfold)
qed

lemma spec_normalized_bounds:
  assumes "0 \<le> v" "v \<le> 10"
  shows "0 \<le> spec_normalized v \<and> spec_normalized v \<le> 10"
proof -
  have "(0::rat) \<le> of_int v" "(of_int v :: rat) \<le> 10" using assms by simp_all
  then show ?thesis by (auto simp: spec_normalized_def min_def)
qed

lemma exact_sum_bounds:
  assumes "valid_breakdown b"
  shows "0 \<le> exact_sum b \<and> exact_sum b \<le> 100"
proof -
  have v: "0 \<le> getattr b key \<and> getattr b key \<le> 10" for key
    using assms by (cases key) (simp_all add: valid_breakdown_def field_names_def)
  have n: "0 \<le> spec_normalized (getattr b key) \<and> spec_normalized (getattr b key) \<le> 10" for key
    using spec_normalized_bounds v by blast
  have t: "0 \<le> spec_normalized (getattr b key) * weights key
           \<and> spec_normalized (getattr b key) * weights key \<le> 10 * weights key" for key
  proof -
    have "0 \<le> weights key" by (cases key) simp_all
    then show ?thesis using n [of key] by (simp add: mult_right_mono)
  qed
  have "0 \<le> exact_sum b"
    unfolding exact_sum_def by (rule sum_list_nonneg) (use t in auto)
  moreover have "exact_sum b \<le> sum_list (map (\<lambda>key. 10 * weights key) field_names)"
    unfolding exact_sum_def by (rule sum_list_mono) (use t in auto)
  moreover have "sum_list (map (\<lambda>key. 10 * weights key) field_names) = 100"
    by (simp add: field_names_def)
  ultimately show ?thesis by simp
qed

lemma py_round2_range:
  assumes "0 \<le> x" "x \<le> 100"
  shows "0 \<le> py_round2 x \<and> py_round2 x \<le> 100"
proof -
  let ?y = "x * 100"
  let ?f = "\<lfloor>?y\<rfloor>"
  have f0: "0 \<le> ?f" using assms by simp
  have y: "?y \<le> 10000" using assms by simp
  then have f1: "?f \<le> 10000" by (simp add: floor_le_iff) 
  have top: "?f + 1 \<le> 10000" if "0 < ?y - of_int ?f"
  proof -
    from that have "of_int ?f < ?y" by simp
    with y have "(of_int ?f :: rat) < 10000" by linarith
    then have "?f < 10000" by linarith
    then show ?thesis by simp
  qed
  define r where "r = (if ?y - of_int ?f < 1 / 2 then ?f else if 1 / 2 < ?y - of_int ?f then ?f + 1
                 else if even ?f then ?f else ?f + 1)"
  have r: "py_round2 x = of_int r / 100" by (simp add: py_round2_def Let_def r_def)
  have "0 \<le> r" using f0 by (simp add: r_def)
  moreover have "r \<le> 10000" using f1 top by (auto simp: r_def)
  ultimately have "(0::rat) \<le> of_int r" "(of_int r :: rat) \<le> 10000" by simp_all
  then show ?thesis by (simp add: r)
qed


subsection \<open>When the aggregation raises\<close>

lemma float_limit_large: "100 < float_limit"
  by (simp add: float_limit_def)

lemma int_times_float_exact:
  "\<bar>n\<bar> < float_limit \<Longrightarrow> int_times_float n x = Inr (of_int n * x)"
  unfolding int_times_float_def by (simp only: not_le [symmetric] if_False)

lemma int_times_float_overflow:
  "float_limit \<le> \<bar>n\<bar> \<Longrightarrow> int_times_float n x = Inl OverflowError"
  unfolding int_times_float_def by (simp only: if_True)

lemma normalized_score_exact:
  "\<bar>v\<bar> < float_limit \<Longrightarrow> normalized_score v = Inr (spec_normalized v)"
  by (simp add: normalized_score_def int_times_float_exact spec_normalized_def)

lemma normalized_score_overflow:
  assumes "float_limit \<le> \<bar>v\<bar>"
  shows "normalized_score v = Inl OverflowError"
proof -
  have "v \<le> 2 \<or> 9 \<le> v" using assms float_limit_large by linarith
  with assms show ?thesis by (auto simp: normalized_score_def int_times_float_overflow)
qed

lemma normalize_scores_exact:
  "list_all (\<lambda>(key, v). \<bar>v\<bar> < float_limit) xs \<Longrightarrow>
   normalize_scores xs = Inr (map (\<lambda>(key, v). (key, spec_normalized v)) xs)"
  by (induction xs rule: normalize_scores.induct) (simp_all add: normalized_score_exact)

lemma normalize_scores_overflow:
  "\<not> list_all (\<lambda>(key, v). \<bar>v\<bar> < float_limit) xs \<Longrightarrow> normalize_scores xs = Inl OverflowError"
proof (induction xs rule: normalize_scores.induct)
  case 1
  then show ?case by simp
next
  case (2 key score rest)
  show ?case
  proof (cases "\<bar>score\<bar> < float_limit")
    case True
    with 2 show ?thesis by (simp add: normalized_score_exact)
  next
    case False
    then show ?thesis by (simp add: normalized_score_overflow)
  qed
qed

lemma in_float_range_items:
  "in_float_range b
   = list_all (\<lambda>(key, v). \<bar>v\<bar> < float_limit) (map (\<lambda>field. (field, getattr b field)) field_names)"
  by (simp add: in_float_range_def list_all_iff)

lemma weighted_sum_exact: "in_float_range b \<Longrightarrow> weighted_sum b = Inr (exact_sum b)"
  by (simp add: weighted_sum_def in_float_range_items normalize_scores_exact exact_sum_def
      comp_def case_prod_unfold)

lemma weighted_sum_overflow: "\<not> in_float_range b \<Longrightarrow> weighted_sum b = Inl OverflowError"
  by (simp add: weighted_sum_def in_float_range_items normalize_scores_overflow)

lemma get_overall_score_exact:
  "in_float_range (breakdown r) \<Longrightarrow>
   get_overall_score (Review r) = Inr (Some (py_round2 (max 0 (min 100 (exact_sum (breakdown r))))))"
  by (simp add: get_overall_score_def weighted_sum_exact)

lemma get_overall_score_overflow:
  "\<not> in_float_range (breakdown r) \<Longrightarrow> get_overall_score (Review r) = Inl OverflowError"
  by (simp add: get_overall_score_def weighted_sum_overflow)

lemma get_overall_score_aggregate:
  "in_float_range (breakdown r) \<Longrightarrow>
   get_overall_score (Review r) = Inr (Some (aggregate (breakdown r)))"
  by (simp add: get_overall_score_exact exact_sum_aggregate)

lemma small_in_float_range: "v \<le> 100 \<Longrightarrow> v < float_limit"
  using float_limit_large by linarith

lemma valid_in_float_range:
  assumes "valid_breakdown b"
  shows "in_float_range b"
proof -
  have "\<bar>getattr b key\<bar> < float_limit" if "key \<in> set field_names" for key
  proof -
    from assms that have "0 \<le> getattr b key \<and> getattr b key \<le> 10"
      by (simp add: valid_breakdown_def list_all_iff)
    then show ?thesis using float_limit_large by linarith
  qed
  then show ?thesis by (simp add: in_float_range_def list_all_iff)
qed

lemmas eval_score =
  get_overall_score_exact in_float_range_def small_in_float_range exact_sum_def
  field_names_def uniform_def spec_normalized_def py_round2_def Let_def

lemma uniform_scores:
  "get_overall_score (Review (r\<lparr>breakdown := uniform 5\<rparr>)) = Inr (Some 50)"
  "get_overall_score (Review (r\<lparr>breakdown := uniform 10\<rparr>)) = Inr (Some 98)"
  "get_overall_score (Review (r\<lparr>breakdown := uniform 1\<rparr>)) = Inr (Some 11)"
  by (simp_all add: eval_score)

text \<open>
  Claim C3, as the code has it. For every breakdown whose criteria are all within the
  range of \<^verbatim>\<open>float\<close> (of magnitude below \<open>2 ^ 1024 - 2 ^ 970\<close>), the aggregation of the
  code equals the reference definition of the specification (normalise each criterion,
  weigh, sum, clamp to the range from 0 to 100, round to two decimals); for any other
  breakdown it raises \<^verbatim>\<open>OverflowError\<close>. A breakdown with every field 5 yields 50.00, with
  every field 10 yields 98.00 and with every field 1 yields 11.00.
\<close>

theorem get_overall_score_refines_aggregate:
  "(in_float_range (breakdown r)
      \<longrightarrow> get_overall_score (Review r) = Inr (Some (aggregate (breakdown r))))
   \<and> (\<not> in_float_range (breakdown r) \<longrightarrow> get_overall_score (Review r) = Inl OverflowError)
   \<and> get_overall_score (Review (r\<lparr>breakdown := uniform 5\<rparr>)) = Inr (Some 50)
   \<and> get_overall_score (Review (r\<lparr>breakdown := uniform 10\<rparr>)) = Inr (Some 98)
   \<and> get_overall_score (Review (r\<lparr>breakdown := uniform 1\<rparr>)) = Inr (Some 11)"
  using get_overall_score_aggregate [of r] get_overall_score_overflow [of r]
    uniform_scores [of r]
  by simp

theorem get_overall_score_refines_aggregate_witness:
  "in_float_range ((uniform 9)\<lparr>project := 1, team := - 7\<rparr>)
   \<and> get_overall_score (Review \<lparr>product = ''P'', overall_score = 0,
        breakdown = (uniform 9)\<lparr>project := 1, team := - 7\<rparr>\<rparr>) = Inr (Some (731 / 10))
   \<and> aggregate ((uniform 9)\<lparr>project := 1, team := - 7\<rparr>) = 731 / 10
   \<and> \<not> in_float_range (uniform (2 ^ 1024))
   \<and> get_overall_score (Review \<lparr>product = ''P'', overall_score = 0,
        breakdown = uniform (2 ^ 1024)\<rparr>) = Inl OverflowError"
proof -
  let ?b = "(uniform 9)\<lparr>project := 1, team := - 7\<rparr>"
  let ?r = "\<lparr>product = ''P'', overall_score = 0, breakdown = ?b\<rparr>"
  let ?h = "\<lparr>product = ''P'', overall_score = 0, breakdown = uniform (2 ^ 1024)\<rparr>"
  have i: "in_float_range ?b"
    by (simp add: in_float_range_def field_names_def uniform_def small_in_float_range)
  have g: "get_overall_score (Review ?r) = Inr (Some (731 / 10))"
    by (simp add: eval_score)
  have o: "\<not> in_float_range (uniform (2 ^ 1024))"
    by (simp add: in_float_range_def field_names_def uniform_def float_limit_def)
  show ?thesis
    using i g o get_overall_score_refines_aggregate [of ?r]
      get_overall_score_refines_aggregate [of ?h]
    by simp
qed

theorem huge_criterion_raises:
  "get_overall_score (Review \<lparr>product = ''P'', overall_score = 0,
      breakdown = uniform (2 ^ 1024)\<rparr>) = Inl OverflowError
   \<and> aggregate (uniform (2 ^ 1024)) = 100"
proof -
  have "\<not> in_float_range (uniform (2 ^ 1024))"
    by (simp add: in_float_range_def field_names_def uniform_def float_limit_def)
  then have "get_overall_score (Review \<lparr>product = ''P'', overall_score = 0,
      breakdown = uniform (2 ^ 1024)\<rparr>) = Inl OverflowError"
    by (simp add: get_overall_score_overflow)
  moreover have "spec_normalized (2 ^ 1024) = 10"
    by (simp add: spec_normalized_def)
  then have "aggregate (uniform (2 ^ 1024)) = 100"
    by (simp add: aggregate_def uniform_def spec_round2_def)
  ultimately show ?thesis by simp
qed

text \<open>
  Claim C7. For every breakdown with each criterion within 0 and 10, the weighted sum of
  the normalised criteria is computed without an exception and lies within 0 and 100
  before it is clamped (the weights sum to exactly 10), so the clamp leaves it as it is,
  and the aggregate lies within 0 and 100.
\<close>

theorem valid_breakdown_sum_in_range:
  assumes "valid_breakdown (breakdown r)"
  shows "sum_list (map weights field_names) = 10
    \<and> (\<exists>x. weighted_sum (breakdown r) = Inr x \<and> 0 \<le> x \<and> x \<le> 100
          \<and> max 0 (min 100 x) = x)
    \<and> (\<exists>s. get_overall_score (Review r) = Inr (Some s) \<and> 0 \<le> s \<and> s \<le> 100)"
proof -
  have w: "sum_list (map weights field_names) = 10" by (simp add: field_names_def)
  have f: "in_float_range (breakdown r)" using assms by (rule valid_in_float_range)
  have b: "0 \<le> exact_sum (breakdown r) \<and> exact_sum (breakdown r) \<le> 100"
    using assms by (rule exact_sum_bounds)
  then have c: "max 0 (min 100 (exact_sum (breakdown r))) = exact_sum (breakdown r)"
    by simp
  have x: "\<exists>x. weighted_sum (breakdown r) = Inr x \<and> 0 \<le> x \<and> x \<le> 100
          \<and> max 0 (min 100 x) = x"
    using b c f by (simp add: weighted_sum_exact)
  have "0 \<le> py_round2 (exact_sum (breakdown r))
      \<and> py_round2 (exact_sum (breakdown r)) \<le> 100"
    using b by (simp add: py_round2_range)
  then have "\<exists>s. get_overall_score (Review r) = Inr (Some s) \<and> 0 \<le> s \<and> s \<le> 100"
    using f by (simp add: get_overall_score_exact c)
  with w x show ?thesis by blast
qed

theorem valid_breakdown_sum_in_range_witness:
  "valid_breakdown (uniform 10) \<and> weighted_sum (uniform 10) = Inr 98
   \<and> max 0 (min 100 (98 :: rat)) = 98
   \<and> (\<exists>s. get_overall_score (Review \<lparr>product = ''P'', overall_score = 98,
          breakdown = uniform 10\<rparr>) = Inr (Some s) \<and> 0 \<le> s \<and> s \<le> 100)"
proof -
  have v: "valid_breakdown (uniform 10)"
    by (simp add: valid_breakdown_def field_names_def uniform_def)
  have s: "weighted_sum (uniform 10) = Inr 98"
    by (simp add: weighted_sum_exact in_float_range_def small_in_float_range exact_sum_def
        field_names_def uniform_def spec_normalized_def)
  show ?thesis
    using v s valid_breakdown_sum_in_range
      [of "\<lparr>product = ''P'', overall_score = 98, breakdown = uniform 10\<rparr>"]
    by simp
qed

section \<open>The loops of a batch in closed form\<close>

text \<open>
  Each loop is run on a prefix of its input and shown to reach the state written down for
  that prefix; no step raises \<^verbatim>\<open>IndexError\<close>. Together the three loops give the final
  state of \<open>forward\<close> for every query, cache and behaviour of the collaborators.
\<close>

lemma for_each_append:
  "for_each body (xs @ ys) st =
     (case for_each body xs st of None \<Rightarrow> None | Some st' \<Rightarrow> for_each body ys st')"
  by (induction xs arbitrary: st) (auto split: option.splits)

lemma enumerate_snoc: "enumerate n (xs @ [x]) = enumerate n xs @ [(n + length xs, x)]"
  by (simp add: enumerate_append_eq)

lemma update_first_free:
  "length xs < n \<Longrightarrow>
   (xs @ replicate (n - length xs) None)[length xs := v]
     = (xs @ [v]) @ replicate (n - length (xs @ [v])) None"
proof -
  assume "length xs < n"
  then obtain k where k: "n - length xs = Suc k" by (metis Suc_diff_Suc)
  then have "n - length (xs @ [v]) = k" by simp
  with k show ?thesis by (simp add: list_update_append)
qed

lemma replicate_first_free:
  "k < n \<Longrightarrow> replicate (n - k) v = v # replicate (n - Suc k) v"
  by (metis Suc_diff_Suc replicate_Suc)

lemma partition_step_cf1:
  assumes "length xs < n"
  shows "partition_step env (length xs, x) (cf1 env cache n xs) = Some (cf1 env cache n (xs @ [x]))"
proof (cases "cache x")
  case None
  show ?thesis
  proof (cases "fetch_product_data env First (length xs) x")
    case None
    with \<open>cache x = None\<close> show ?thesis
      using update_first_free [of "map cache xs" n None] assms
      by (simp add: cf1_def assign_def enumerate_snoc dispatched_def partition_events_def)
  next
    case (Some r)
    with \<open>cache x = None\<close> show ?thesis
      using assms
      by (simp add: cf1_def enumerate_snoc dispatched_def partition_events_def launch_def
          replicate_first_free)
  qed
next
  case (Some s)
  then show ?thesis
    using update_first_free [of "map cache xs" n "Some s"] assms
    by (simp add: cf1_def assign_def enumerate_snoc dispatched_def partition_events_def)
qed

lemma partition_loop:
  "length xs \<le> n \<Longrightarrow>
   for_each (partition_step env) (enumerate 0 xs) (initial_state n cache) = Some (cf1 env cache n xs)"
proof (induction xs rule: rev_induct)
  case Nil
  show ?case by (simp add: cf1_def initial_state_def)
next
  case (snoc x xs)
  then have "length xs < n" by simp
  with snoc show ?case
    by (simp add: enumerate_snoc for_each_append partition_step_cf1 del: partition_step.simps)
qed

lemma length_fold_write_prediction [simp]:
  "length (fold write_prediction tr ps) = length ps"
proof (induction tr arbitrary: ps)
  case Nil
  show ?case by simp
next
  case (Cons e tr)
  then show ?case by (cases e) simp_all
qed

lemma score_cases [case_names raised absent Some]:
  obtains e where "x = Inl e" | "x = (Inr None :: error + score option)"
  | s where "x = Inr (Some s)"
  by (cases x) auto

lemma attempt_score_outcome:
  "fetch_product_data env a i pid \<noteq> None \<Longrightarrow>
   attempt_score env a (i, pid) = accepted (outcome env a (i, pid))"
  by (auto simp: attempt_score_def outcome_def)

lemma first_wave_step_cf2:
  assumes ids: "product_ids st = ps @ (i, pid) # rest"
    and len: "i < length (predictions st)"
    and found: "fetch_product_data env First i pid \<noteq> None"
  shows "first_wave_step env (length ps, outcome env First (i, pid)) (cf2 env st ps)
         = Some (cf2 env st (ps @ [(i, pid)]))"
proof -
  have sub: "subscript (product_ids (cf2 env st ps)) (length ps) = Some (i, pid)"
    by (simp add: cf2_def ids subscript_def)
  have acc: "attempt_score env First (i, pid) = accepted (outcome env First (i, pid))"
    using found by (rule attempt_score_outcome)
  have queue: "queue_retry env i pid (length ps) (cf2 env st ps) = cf2 env st (ps @ [(i, pid)])"
    if "accepted (outcome env First (i, pid)) = None"
  proof (cases "fetch_product_data env Retry i pid")
    case None
    then show ?thesis
      using that acc
      by (simp add: queue_retry_def cf2_def enumerate_snoc first_wave_events_def requeued_def)
  next
    case (Some r)
    then show ?thesis
      using that acc
      by (simp add: queue_retry_def cf2_def enumerate_snoc first_wave_events_def requeued_def
          launch_def)
  qed
  show ?thesis
  proof (cases "outcome env First (i, pid)")
    case Raised
    then have "accepted (outcome env First (i, pid)) = None" by (simp add: accepted_def)
    with Raised sub queue show ?thesis by simp
  next
    case (Returned r)
    show ?thesis
    proof (cases "get_overall_score r" rule: score_cases)
      case (raised e)
      with Returned have "accepted (outcome env First (i, pid)) = None"
        by (simp add: accepted_def)
      with Returned raised sub queue show ?thesis by simp
    next
      case absent
      with Returned have "accepted (outcome env First (i, pid)) = None"
        by (simp add: accepted_def)
      with Returned absent sub queue show ?thesis by simp
    next
      case (Some s)
      show ?thesis
      proof (cases "s < 0 \<or> s > 100")
        case True
        with Returned Some have "accepted (outcome env First (i, pid)) = None"
          by (auto simp: accepted_def)
        with Returned Some True sub queue show ?thesis by simp
      next
        case False
        with Returned Some have a: "accepted (outcome env First (i, pid)) = Some s"
          by (auto simp: accepted_def)
        have "attempt_score env First (i, pid) = Some s" using acc a by simp
        then have "cf2 env st (ps @ [(i, pid)])
            = (cf2 env st ps)\<lparr>predictions := (predictions (cf2 env st ps))[i := Some s],
                miner_preds := (miner_preds (cf2 env st ps))(pid \<mapsto> s),
                trace := trace (cf2 env st ps) @ [Write i pid s]\<rparr>"
          by (simp add: cf2_def enumerate_snoc first_wave_events_def requeued_def)
        moreover have "assign (predictions (cf2 env st ps)) i (Some s)
            = Some ((predictions (cf2 env st ps))[i := Some s])"
          using len by (simp add: assign_def cf2_def)
        ultimately show ?thesis using Returned Some False sub by simp
      qed
    qed
  qed
qed

lemma first_wave_loop:
  assumes "product_ids st = ps @ rest"
    and "\<forall>(i, pid) \<in> set ps. i < length (predictions st)
           \<and> fetch_product_data env First i pid \<noteq> None"
  shows "for_each (first_wave_step env) (enumerate 0 (map (outcome env First) ps)) st
         = Some (cf2 env st ps)"
  using assms
proof (induction ps arbitrary: rest rule: rev_induct)
  case Nil
  show ?case by (simp add: cf2_def)
next
  case (snoc x ps)
  obtain i pid where x: "x = (i, pid)" by (cases x)
  have "for_each (first_wave_step env) (enumerate 0 (map (outcome env First) ps)) st
        = Some (cf2 env st ps)"
    using snoc.IH [of "x # rest"] snoc.prems by simp
  moreover have "first_wave_step env (length ps, outcome env First (i, pid)) (cf2 env st ps)
      = Some (cf2 env st (ps @ [(i, pid)]))"
    using snoc.prems by (intro first_wave_step_cf2 [where rest = rest]) (simp_all add: x)
  ultimately show ?case
    by (simp add: x enumerate_snoc for_each_append del: first_wave_step.simps)
qed

lemma retry_step_cf3:
  assumes ids: "retry_indices st = rs @ (i, pid, k) # rest"
    and len: "i < length (predictions st)"
    and found: "fetch_product_data env Retry i pid \<noteq> None"
  shows "retry_step env (length rs, outcome env Retry (i, pid)) (cf3 env st rs)
         = Some (cf3 env st (rs @ [(i, pid, k)]))"
proof -
  have sub: "subscript (retry_indices (cf3 env st rs)) (length rs) = Some (i, pid, k)"
    by (simp add: cf3_def ids subscript_def)
  have acc: "attempt_score env Retry (i, pid) = accepted (outcome env Retry (i, pid))"
    using found by (rule attempt_score_outcome)
  have st: "store i pid v (cf3 env st rs) = Some (cf3 env st (rs @ [(i, pid, k)]))"
    if "v = (case accepted (outcome env Retry (i, pid)) of Some s \<Rightarrow> s | None \<Rightarrow> fallback_score)"
    for v
    using that acc len by (simp add: store_def assign_def cf3_def retry_events_def)
  show ?thesis
  proof (cases "outcome env Retry (i, pid)")
    case Raised
    then show ?thesis using sub st [of fallback_score] by (simp add: accepted_def)
  next
    case (Returned r)
    show ?thesis
    proof (cases "get_overall_score r" rule: score_cases)
      case (raised e)
      with Returned show ?thesis using sub st [of fallback_score] by (simp add: accepted_def)
    next
      case absent
      with Returned show ?thesis using sub st [of fallback_score] by (simp add: accepted_def)
    next
      case (Some s)
      show ?thesis
      proof (cases "0 \<le> s \<and> s \<le> 100")
        case True
        with Returned Some show ?thesis using sub st [of s] by (simp add: accepted_def)
      next
        case False
        with Returned Some show ?thesis
          using sub st [of fallback_score] by (auto simp: accepted_def)
      qed
    qed
  qed
qed

lemma retry_loop:
  assumes "retry_indices st = rs @ rest"
    and "\<forall>(i, pid, k) \<in> set rs. i < length (predictions st)
           \<and> fetch_product_data env Retry i pid \<noteq> None"
  shows "for_each (retry_step env)
           (enumerate 0 (map (\<lambda>(i, pid, k). outcome env Retry (i, pid)) rs)) st
         = Some (cf3 env st rs)"
  using assms
proof (induction rs arbitrary: rest rule: rev_induct)
  case Nil
  show ?case by (simp add: cf3_def)
next
  case (snoc x rs)
  obtain i pid k where x: "x = (i, pid, k)" by (cases x)
  have "for_each (retry_step env)
          (enumerate 0 (map (\<lambda>(i, pid, k). outcome env Retry (i, pid)) rs)) st
        = Some (cf3 env st rs)"
    using snoc.IH [of "x # rest"] snoc.prems by simp
  moreover have "retry_step env (length rs, outcome env Retry (i, pid)) (cf3 env st rs)
      = Some (cf3 env st (rs @ [(i, pid, k)]))"
    using snoc.prems by (intro retry_step_cf3 [where rest = rest]) (simp_all add: x)
  ultimately show ?case
    by (simp add: x enumerate_snoc for_each_append del: retry_step.simps)
qed

lemma filter_snd_enumerate: "map snd (filter (Q \<circ> snd) (enumerate n xs)) = filter Q xs"
  by (induction xs arbitrary: n) simp_all

lemma partition_events_no_write:
  "fold write_prediction (concat (map (partition_events env cache) xs)) ps = ps"
  "fold write_cache (concat (map (partition_events env cache) xs)) m = m"
  by (induction xs arbitrary: ps m)
    (auto simp: partition_events_def split: option.splits)

lemma in_enumerate_0: "(i, x) \<in> set (enumerate 0 xs) \<longleftrightarrow> i < length xs \<and> x = xs ! i"
  by (auto simp: in_set_enumerate_eq)

lemma retry_ids_strip:
  "map (\<lambda>(i, pid, k). f (i, pid)) (retry_ids env cache query)
   = map f (filter (requeued env) (first_wave_ids env cache query))"
proof -
  have "map (\<lambda>(i, pid, k). f (i, pid)) (retry_ids env cache query)
      = map f (map snd (filter (requeued env \<circ> snd)
          (enumerate 0 (first_wave_ids env cache query))))"
    by (simp add: retry_ids_def case_prod_unfold comp_def)
  then show ?thesis by (simp only: filter_snd_enumerate)
qed

lemma retry_ids_member:
  assumes "(i, pid, k) \<in> set (retry_ids env cache query)"
  shows "(i, pid) \<in> set (first_wave_ids env cache query) \<and> requeued env (i, pid)"
proof -
  have "(i, pid) \<in> set (map (\<lambda>(i, pid, k). id (i, pid)) (retry_ids env cache query))"
    using assms by force
  then have "(i, pid) \<in> set (map id (filter (requeued env) (first_wave_ids env cache query)))"
    by (simp only: retry_ids_strip)
  then show ?thesis by simp
qed

lemma first_wave_ids_member:
  "(i, pid) \<in> set (first_wave_ids env cache query)
   \<longleftrightarrow> i < length query \<and> pid = query ! i \<and> dispatched env cache (i, pid)"
  by (auto simp: first_wave_ids_def in_enumerate_0)

lemma forward_cf:
  "forward env query cache
   = Some (cf3 env (cf2 env (cf1 env cache (length query) query)
                     (first_wave_ids env cache query))
             (retry_ids env cache query))"
proof -
  let ?st1 = "cf1 env cache (length query) query"
  let ?P = "first_wave_ids env cache query"
  let ?st2 = "cf2 env ?st1 ?P"
  let ?R = "retry_ids env cache query"
  have p1: "for_each (partition_step env) (enumerate 0 query)
      (initial_state (length query) cache) = Some ?st1"
    by (rule partition_loop) simp
  have ids1: "product_ids ?st1 = ?P @ []" by (simp add: cf1_def first_wave_ids_def)
  have pre1: "\<forall>(i, pid) \<in> set ?P. i < length (predictions ?st1)
           \<and> fetch_product_data env First i pid \<noteq> None"
    by (auto simp: first_wave_ids_member cf1_def dispatched_def)
  have g1: "gather env First (tasks ?st1) = map (outcome env First) ?P"
    by (simp add: gather_def cf1_def first_wave_ids_def launch_def outcome_def
        case_prod_unfold comp_def)
  have p2: "for_each (first_wave_step env) (enumerate 0 (gather env First (tasks ?st1))) ?st1
      = Some ?st2"
    unfolding g1 using ids1 pre1 by (rule first_wave_loop)
  have ids2: "retry_indices ?st2 = ?R @ []" by (simp add: cf2_def cf1_def retry_ids_def)
  have pre2: "\<forall>(i, pid, k) \<in> set ?R. i < length (predictions ?st2)
           \<and> fetch_product_data env Retry i pid \<noteq> None"
  proof (clarify, intro conjI)
    fix i pid k
    assume "(i, pid, k) \<in> set ?R"
    then have m: "(i, pid) \<in> set ?P" and r: "requeued env (i, pid)"
      using retry_ids_member by blast+
    from m show "i < length (predictions ?st2)"
      by (simp add: first_wave_ids_member cf2_def cf1_def)
    from r show "fetch_product_data env Retry i pid \<noteq> None"
      by (simp add: requeued_def)
  qed
  have g2: "gather env Retry (retry_tasks ?st2)
      = map (\<lambda>(i, pid, k). outcome env Retry (i, pid)) ?R"
    by (simp add: gather_def cf2_def cf1_def retry_ids_def launch_def outcome_def
        case_prod_unfold comp_def)
  have p3: "for_each (retry_step env) (enumerate 0 (gather env Retry (retry_tasks ?st2))) ?st2
      = Some (cf3 env ?st2 ?R)"
    unfolding g2 using ids2 pre2 by (rule retry_loop)
  have e2: "?st2 = ?st1" if "tasks ?st1 = []"
  proof -
    from that have "?P = []" by (simp add: cf1_def first_wave_ids_def)
    then show ?thesis by (simp add: cf2_def)
  qed
  have r0: "?R = []" if "tasks ?st1 = []"
  proof -
    from that have "?P = []" by (simp add: cf1_def first_wave_ids_def)
    then show ?thesis by (simp add: retry_ids_def)
  qed
  have r1: "?R = []" if "retry_tasks ?st2 = []"
    using that by (simp add: cf2_def cf1_def retry_ids_def)
  have e3: "cf3 env st [] = st" for st by (simp add: cf3_def)
  show ?thesis
  proof (cases "tasks ?st1 = []")
    case True
    then show ?thesis using p1 e2 r0 e3 by (simp add: forward_def)
  next
    case False
    show ?thesis
    proof (cases "retry_tasks ?st2 = []")
      case True
      with False show ?thesis using p1 p2 r1 e3 by (simp add: forward_def)
    next
      case nonempty: False
      with False show ?thesis using p1 p2 p3 by (simp add: forward_def)
    qed
  qed
qed

lemma forward_closed_form:
  "\<exists>st. forward env query cache = Some st
     \<and> trace st = batch_trace env cache query
     \<and> predictions st = fold write_prediction (batch_trace env cache query) (map cache query)
     \<and> miner_preds st = fold write_cache (batch_trace env cache query) cache"
proof -
  have t3: "concat (map (\<lambda>(i, pid, k). retry_events env (i, pid)) (retry_ids env cache query))
      = concat (map (retry_events env)
          (filter (requeued env) (first_wave_ids env cache query)))"
    by (simp only: retry_ids_strip)
  show ?thesis
    unfolding forward_cf
    by (simp add: cf3_def cf2_def cf1_def t3 batch_trace_def first_wave_ids_def
        partition_events_no_write)
qed


section \<open>The events and the slot of one position\<close>

text \<open>
  Every event carries its position and its id, so the events of one position, or of one
  id, can be filtered out of the trace of a batch; the value of a response slot and of a
  cache entry depends on these events alone.
\<close>

lemma filter_concat_map_key:
  assumes "\<forall>y \<in> set xs. \<forall>e \<in> set (E y). key e = k y"
  shows "filter (\<lambda>e. key e = v) (concat (map E xs))
         = concat (map E (filter (\<lambda>y. k y = v) xs))"
  using assms
proof (induction xs)
  case Nil
  show ?case by simp
next
  case (Cons y xs)
  have "filter (\<lambda>e. key e = v) (E y) = (if k y = v then E y else [])"
    using Cons.prems by (auto simp: filter_empty_conv filter_id_conv)
  with Cons show ?case by simp
qed

lemma filter_fst_enumerate_outside:
  "i < n \<or> n + length xs \<le> i \<Longrightarrow> filter (\<lambda>y. fst y = i) (enumerate n xs) = []"
  by (auto simp: filter_empty_conv in_set_enumerate_eq)

lemma filter_fst_enumerate:
  assumes "i < length xs"
  shows "filter (\<lambda>y. fst y = i) (enumerate 0 xs) = [(i, xs ! i)]"
proof -
  have "xs = take i xs @ xs ! i # drop (Suc i) xs"
    using assms by (simp add: id_take_nth_drop)
  then have "enumerate 0 xs
      = enumerate 0 (take i xs) @ (i, xs ! i) # enumerate (Suc i) (drop (Suc i) xs)"
    using assms by (metis add_0 enumerate_append_eq enumerate_simps(2) length_take min.absorb2 less_imp_le)
  then show ?thesis
    using assms by (simp add: filter_fst_enumerate_outside)
qed

lemma partition_events_keys:
  "e \<in> set (partition_events env cache y) \<Longrightarrow> event_pos e = fst y \<and> event_id e = snd y"
  by (cases y) (auto simp: partition_events_def split: option.splits)

lemma first_wave_events_keys:
  "e \<in> set (first_wave_events env y) \<Longrightarrow> event_pos e = fst y \<and> event_id e = snd y"
  by (cases y) (auto simp: first_wave_events_def split: option.splits)

lemma retry_events_keys:
  "e \<in> set (retry_events env y) \<Longrightarrow> event_pos e = fst y \<and> event_id e = snd y"
  by (cases y) (auto simp: retry_events_def)

lemma batch_trace_events_of: "batch_trace env cache query = events_of env cache (enumerate 0 query)"
  by (simp add: batch_trace_def events_of_def)

lemma events_of_single: "events_of env cache [y] = item_events env cache y"
  by (simp add: events_of_def item_events_def)

lemma events_of_Nil: "events_of env cache [] = []"
  by (simp add: events_of_def)

lemma events_of_filter:
  assumes "\<And>y e. event_pos e = fst y \<Longrightarrow> event_id e = snd y \<Longrightarrow> key e = k y"
  shows "filter (\<lambda>e. key e = v) (events_of env cache xs)
         = events_of env cache (filter (\<lambda>y. k y = v) xs)"
proof -
  have 1: "filter (\<lambda>e. key e = v) (concat (map (partition_events env cache) ys))
      = concat (map (partition_events env cache) (filter (\<lambda>y. k y = v) ys))" for ys
    by (rule filter_concat_map_key) (use assms partition_events_keys in blast)
  have 2: "filter (\<lambda>e. key e = v) (concat (map (first_wave_events env) ys))
      = concat (map (first_wave_events env) (filter (\<lambda>y. k y = v) ys))" for ys
    by (rule filter_concat_map_key) (use assms first_wave_events_keys in blast)
  have 3: "filter (\<lambda>e. key e = v) (concat (map (retry_events env) ys))
      = concat (map (retry_events env) (filter (\<lambda>y. k y = v) ys))" for ys
    by (rule filter_concat_map_key) (use assms retry_events_keys in blast)
  have c: "filter (\<lambda>y. k y = v) (filter P ys) = filter P (filter (\<lambda>y. k y = v) ys)" for P ys
    by (induction ys) simp_all
  show ?thesis
    unfolding events_of_def filter_append 1 2 3 by (simp only: c)
qed

lemma batch_trace_at_position:
  assumes "i < length query"
  shows "filter (\<lambda>e. event_pos e = i) (batch_trace env cache query)
         = item_events env cache (i, query ! i)"
proof -
  have "filter (\<lambda>e. event_pos e = i) (events_of env cache (enumerate 0 query))
      = events_of env cache (filter (\<lambda>y. fst y = i) (enumerate 0 query))"
    by (rule events_of_filter) simp
  then show ?thesis
    using assms by (simp add: batch_trace_events_of filter_fst_enumerate events_of_single)
qed

lemma batch_trace_beyond:
  assumes "length query \<le> i"
  shows "filter (\<lambda>e. event_pos e = i) (batch_trace env cache query) = []"
proof -
  have "filter (\<lambda>e. event_pos e = i) (events_of env cache (enumerate 0 query))
      = events_of env cache (filter (\<lambda>y. fst y = i) (enumerate 0 query))"
    by (rule events_of_filter) simp
  then show ?thesis
    using assms by (simp add: batch_trace_events_of filter_fst_enumerate_outside events_of_Nil)
qed

lemma batch_trace_at_id:
  "filter (\<lambda>e. event_id e = x) (batch_trace env cache query)
   = events_of env cache (filter (\<lambda>y. snd y = x) (enumerate 0 query))"
  unfolding batch_trace_events_of by (rule events_of_filter) simp

lemma set_events_of:
  "set (events_of env cache xs) = (\<Union>y \<in> set xs. set (item_events env cache y))"
  by (auto simp: events_of_def item_events_def)

lemma batch_trace_member:
  "e \<in> set (batch_trace env cache query)
   \<longleftrightarrow> (\<exists>i < length query. e \<in> set (item_events env cache (i, query ! i)))"
  by (auto simp: batch_trace_events_of set_events_of in_enumerate_0)

lemma length_write_prediction [simp]: "length (write_prediction e ps) = length ps"
  by (cases e) simp_all

lemma write_prediction_other: "event_pos e \<noteq> i \<Longrightarrow> write_prediction e ps ! i = ps ! i"
  by (cases e) simp_all

lemma write_prediction_same:
  assumes "i < length ps" "length ps' = length ps" "ps' ! i = ps ! i"
  shows "write_prediction e ps' ! i = write_prediction e ps ! i"
proof (cases e)
  case (Write j pid s)
  show ?thesis using assms by (cases "j = i") (simp_all add: Write)
qed (use assms in simp_all)

lemma fold_write_prediction_at:
  assumes "i < length ps" "length ps' = length ps" "ps' ! i = ps ! i"
  shows "fold write_prediction tr ps ! i
         = fold write_prediction (filter (\<lambda>e. event_pos e = i) tr) ps' ! i"
  using assms
proof (induction tr arbitrary: ps ps')
  case Nil
  then show ?case by simp
next
  case (Cons e tr)
  show ?case
  proof (cases "event_pos e = i")
    case True
    have "fold write_prediction tr (write_prediction e ps) ! i
        = fold write_prediction (filter (\<lambda>e. event_pos e = i) tr) (write_prediction e ps') ! i"
    proof (rule Cons.IH)
      show "i < length (write_prediction e ps)" using Cons.prems by simp
      show "length (write_prediction e ps') = length (write_prediction e ps)"
        using Cons.prems by simp
      show "write_prediction e ps' ! i = write_prediction e ps ! i"
        using Cons.prems by (rule write_prediction_same)
    qed
    with True show ?thesis by simp
  next
    case False
    have "fold write_prediction tr (write_prediction e ps) ! i
        = fold write_prediction (filter (\<lambda>e. event_pos e = i) tr) ps' ! i"
    proof (rule Cons.IH)
      show "i < length (write_prediction e ps)" using Cons.prems by simp
      show "length ps' = length (write_prediction e ps)" using Cons.prems by simp
      show "ps' ! i = write_prediction e ps ! i"
        using Cons.prems False by (simp add: write_prediction_other)
    qed
    with False show ?thesis by simp
  qed
qed

lemma write_cache_other: "event_id e \<noteq> x \<Longrightarrow> write_cache e m x = m x"
  by (cases e) simp_all

lemma write_cache_same: "m' x = m x \<Longrightarrow> write_cache e m' x = write_cache e m x"
  by (cases e) simp_all

lemma fold_write_cache_at:
  assumes "m' x = m x"
  shows "fold write_cache tr m x = fold write_cache (filter (\<lambda>e. event_id e = x) tr) m' x"
  using assms
proof (induction tr arbitrary: m m')
  case Nil
  then show ?case by simp
next
  case (Cons e tr)
  show ?case
  proof (cases "event_id e = x")
    case True
    have "fold write_cache tr (write_cache e m) x
        = fold write_cache (filter (\<lambda>e. event_id e = x) tr) (write_cache e m') x"
      using Cons.prems by (intro Cons.IH write_cache_same)
    with True show ?thesis by simp
  next
    case False
    have "fold write_cache tr (write_cache e m) x
        = fold write_cache (filter (\<lambda>e. event_id e = x) tr) m' x"
      using Cons.prems False by (intro Cons.IH) (simp add: write_cache_other)
    with False show ?thesis by simp
  qed
qed

lemma item_events_slot:
  assumes "i < length ps" "ps ! i = cache pid"
  shows "fold write_prediction (item_events env cache (i, pid)) ps ! i = slot env cache (i, pid)"
proof (cases "cache pid")
  case (Some s)
  with assms show ?thesis
    by (simp add: item_events_def partition_events_def dispatched_def slot_def)
next
  case None
  note uncached = this
  show ?thesis
  proof (cases "fetch_product_data env First i pid")
    case None
    with uncached assms show ?thesis
      by (simp add: item_events_def partition_events_def dispatched_def slot_def)
  next
    case (Some r)
    note found = this
    show ?thesis
    proof (cases "accepted (generate_review_score env First i r)")
      case (Some s)
      with uncached found assms show ?thesis
        by (simp add: item_events_def partition_events_def first_wave_events_def
            dispatched_def requeued_def attempt_score_def slot_def)
    next
      case None
      note failed = this
      show ?thesis
      proof (cases "fetch_product_data env Retry i pid")
        case None
        with uncached found failed assms show ?thesis
          by (simp add: item_events_def partition_events_def first_wave_events_def
              dispatched_def requeued_def attempt_score_def slot_def)
      next
        case (Some r')
        with uncached found failed assms show ?thesis
          by (simp add: item_events_def partition_events_def first_wave_events_def
              retry_events_def dispatched_def requeued_def attempt_score_def slot_def
              split: option.splits)
      qed
    qed
  qed
qed

lemma prediction_slot:
  assumes "i < length query"
  shows "fold write_prediction (batch_trace env cache query) (map cache query) ! i
         = slot env cache (i, query ! i)"
proof -
  have "fold write_prediction (batch_trace env cache query) (map cache query) ! i
      = fold write_prediction (filter (\<lambda>e. event_pos e = i) (batch_trace env cache query))
          (map cache query) ! i"
    using assms by (intro fold_write_prediction_at) simp_all
  also have "\<dots> = fold write_prediction (item_events env cache (i, query ! i)) (map cache query) ! i"
    using assms by (simp only: batch_trace_at_position)
  also have "\<dots> = slot env cache (i, query ! i)"
    using assms by (intro item_events_slot) simp_all
  finally show ?thesis .
qed

lemma predictions_slots:
  "fold write_prediction (batch_trace env cache query) (map cache query)
   = map (slot env cache) (enumerate 0 query)"
proof (rule nth_equalityI)
  show "length (fold write_prediction (batch_trace env cache query) (map cache query))
      = length (map (slot env cache) (enumerate 0 query))"
    by simp
next
  fix i
  assume "i < length (fold write_prediction (batch_trace env cache query) (map cache query))"
  then have i: "i < length query" by simp
  then show "fold write_prediction (batch_trace env cache query) (map cache query) ! i
      = map (slot env cache) (enumerate 0 query) ! i"
    by (simp add: prediction_slot nth_enumerate_eq)
qed


section \<open>The claims about a batch\<close>

lemma forward_result:
  obtains st where "forward env query cache = Some st"
    and "trace st = batch_trace env cache query"
    and "predictions st = map (slot env cache) (enumerate 0 query)"
    and "miner_preds st = fold write_cache (batch_trace env cache query) cache"
  using forward_closed_form [of env query cache] by (auto simp: predictions_slots)

lemma slot_found:
  assumes "\<forall>a. fetch_product_data env a i pid \<noteq> None"
  shows "slot env cache (i, pid) \<noteq> None"
proof -
  from assms obtain r r' where "fetch_product_data env First i pid = Some r"
    "fetch_product_data env Retry i pid = Some r'"
    by (metis not_Some_eq)
  then show ?thesis by (simp add: slot_def split: option.splits)
qed

lemma slot_fallback:
  assumes "\<forall>a. fetch_product_data env a i pid \<noteq> None" "cache pid = None"
    "attempt_score env First (i, pid) = None" "attempt_score env Retry (i, pid) = None"
  shows "slot env cache (i, pid) = Some fallback_score"
    and "Write i pid fallback_score \<in> set (item_events env cache (i, pid))"
    and "fold write_cache (item_events env cache (i, pid)) cache pid = Some fallback_score"
proof -
  from assms obtain r r' where f: "fetch_product_data env First i pid = Some r"
    "fetch_product_data env Retry i pid = Some r'"
    by (metis not_Some_eq)
  with assms have a: "accepted (generate_review_score env First i r) = None"
    "accepted (generate_review_score env Retry i r') = None"
    by (simp_all add: attempt_score_def)
  show "slot env cache (i, pid) = Some fallback_score"
    using assms(2) f a by (simp add: slot_def)
  have ev: "item_events env cache (i, pid)
      = [Lookup First i pid, Invoke First i pid, Lookup Retry i pid, Invoke Retry i pid,
         Write i pid fallback_score]"
    using assms f
    by (simp add: item_events_def partition_events_def first_wave_events_def retry_events_def
        dispatched_def requeued_def)
  show "Write i pid fallback_score \<in> set (item_events env cache (i, pid))"
    by (simp add: ev)
  show "fold write_cache (item_events env cache (i, pid)) cache pid = Some fallback_score"
    by (simp add: ev)
qed

lemma write_cached:
  "Write j x s \<in> set tr \<Longrightarrow> fold write_cache tr m x \<noteq> None"
proof (induction tr arbitrary: m rule: rev_induct)
  case Nil
  then show ?case by simp
next
  case (snoc e tr)
  show ?case
  proof (cases "e = Write j x s")
    case True
    then show ?thesis by simp
  next
    case False
    with snoc.prems have "Write j x s \<in> set tr" by simp
    then have "fold write_cache tr m x \<noteq> None" by (rule snoc.IH)
    then show ?thesis by (cases e) auto
  qed
qed

lemma filter_snd_enumerate_unique:
  assumes "i < length xs" "\<forall>j < length xs. xs ! j = xs ! i \<longrightarrow> j = i"
  shows "filter (\<lambda>y. snd y = xs ! i) (enumerate 0 xs) = [(i, xs ! i)]"
proof -
  have "filter (\<lambda>y. snd y = xs ! i) (enumerate 0 xs) = filter (\<lambda>y. fst y = i) (enumerate 0 xs)"
    by (rule filter_cong) (use assms in \<open>auto simp: in_enumerate_0\<close>)
  with assms(1) show ?thesis by (simp add: filter_fst_enumerate)
qed

lemma cache_at_unique_id:
  assumes "i < length query" "\<forall>j < length query. query ! j = query ! i \<longrightarrow> j = i"
  shows "fold write_cache (batch_trace env cache query) cache (query ! i)
         = fold write_cache (item_events env cache (i, query ! i)) cache (query ! i)"
proof -
  have "fold write_cache (batch_trace env cache query) cache (query ! i)
      = fold write_cache (filter (\<lambda>e. event_id e = query ! i) (batch_trace env cache query))
          cache (query ! i)"
    by (rule fold_write_cache_at) simp
  then show ?thesis
    using assms by (simp add: batch_trace_at_id filter_snd_enumerate_unique events_of_single)
qed

text \<open>
  Claim C1. When every lookup made for an item returns a record, the response slot of
  the item is a score, never absent; and if the item is not cached and both its first
  oracle attempt and its retry fail or yield no valid score, the slot is the fallback
  score 50 and 50 is written into the cache for its id. (\<open>attempt_score\<close> is \<open>None\<close>
  for a found product exactly when the coroutine raised, the aggregation raised, or the
  score did not pass the check.) The write is an event of the trace; the cache still
  holds an entry for the id when the batch ends, and it is the fallback score when no
  other position of the batch holds the same id.
\<close>

theorem found_item_is_scored:
  assumes "i < length query"
    and "\<forall>a. fetch_product_data env a i (query ! i) \<noteq> None"
  shows "\<exists>st. forward env query cache = Some st \<and> predictions st ! i \<noteq> None
    \<and> (cache (query ! i) = None \<and> attempt_score env First (i, query ! i) = None
          \<and> attempt_score env Retry (i, query ! i) = None
        \<longrightarrow> predictions st ! i = Some fallback_score
          \<and> Write i (query ! i) fallback_score \<in> set (trace st)
          \<and> miner_preds st (query ! i) \<noteq> None
          \<and> ((\<forall>j < length query. query ! j = query ! i \<longrightarrow> j = i)
               \<longrightarrow> miner_preds st (query ! i) = Some fallback_score))"
proof -
  obtain st where st: "forward env query cache = Some st"
    "trace st = batch_trace env cache query"
    "predictions st = map (slot env cache) (enumerate 0 query)"
    "miner_preds st = fold write_cache (batch_trace env cache query) cache"
    by (rule forward_result)
  have p: "predictions st ! i = slot env cache (i, query ! i)"
    using assms(1) by (simp add: st nth_enumerate_eq)
  have n: "predictions st ! i \<noteq> None" using assms(2) by (simp add: p slot_found)
  have fbk: "cache (query ! i) = None \<and> attempt_score env First (i, query ! i) = None
          \<and> attempt_score env Retry (i, query ! i) = None
        \<longrightarrow> predictions st ! i = Some fallback_score
          \<and> Write i (query ! i) fallback_score \<in> set (trace st)
          \<and> miner_preds st (query ! i) \<noteq> None
          \<and> ((\<forall>j < length query. query ! j = query ! i \<longrightarrow> j = i)
               \<longrightarrow> miner_preds st (query ! i) = Some fallback_score)"
  proof (intro impI, elim conjE)
    assume f: "cache (query ! i) = None" "attempt_score env First (i, query ! i) = None"
      "attempt_score env Retry (i, query ! i) = None"
    note fb = slot_fallback [of env i "query ! i" cache, OF assms(2) f]
    have w: "Write i (query ! i) fallback_score \<in> set (trace st)"
      using fb(2) assms(1) by (auto simp: st batch_trace_member)
    then have c: "miner_preds st (query ! i) \<noteq> None"
      unfolding st(4) st(2) by (rule write_cached)
    have u: "miner_preds st (query ! i) = Some fallback_score"
      if "\<forall>j < length query. query ! j = query ! i \<longrightarrow> j = i"
      using cache_at_unique_id [OF assms(1) that, of env cache] fb(3) by (simp add: st)
    show "predictions st ! i = Some fallback_score
          \<and> Write i (query ! i) fallback_score \<in> set (trace st)
          \<and> miner_preds st (query ! i) \<noteq> None
          \<and> ((\<forall>j < length query. query ! j = query ! i \<longrightarrow> j = i)
               \<longrightarrow> miner_preds st (query ! i) = Some fallback_score)"
      using fb(1) w c u by (simp add: p)
  qed
  from st(1) n fbk show ?thesis by (intro exI [of _ st] conjI)
qed

theorem found_item_is_scored_witness:
  "(0::nat) < length [''D'']
   \<and> fetch_product_data always_failing First 0 ([''D''] ! 0) \<noteq> None
   \<and> fetch_product_data always_failing Retry 0 ([''D''] ! 0) \<noteq> None
   \<and> (\<exists>st. forward always_failing [''D''] Map.empty = Some st
        \<and> predictions st ! 0 = Some 50
        \<and> Write 0 ''D'' 50 \<in> set (trace st)
        \<and> miner_preds st ''D'' = Some 50)"
proof -
  have h: "\<forall>a. fetch_product_data always_failing a 0 ([''D''] ! 0) \<noteq> None"
    by (simp add: always_failing_def)
  show ?thesis
    using found_item_is_scored [of 0 "[''D'']" always_failing Map.empty, OF _ h]
    by (auto simp: always_failing_def attempt_score_def accepted_def fallback_score_def)
qed

text \<open>
  Claim C2. The response has the length of the query, and the entry at each position is
  the slot of the id at that position: a function of that id, the cache as the batch
  found it, and the collaborators' answers for that position alone, for any mixture of
  cache hits, misses and ids that are not found. The order in which the coroutines of a
  wave finish does not enter: \<open>gather\<close> returns their outcomes in the order of its
  arguments, and the loops map a result back through \<^verbatim>\<open>product_ids\<close> and
  \<^verbatim>\<open>retry_indices\<close>.
\<close>

theorem response_aligned:
  "\<exists>st. forward env query cache = Some st
     \<and> length (predictions st) = length query
     \<and> predictions st = map (slot env cache) (enumerate 0 query)"
proof -
  obtain st where "forward env query cache = Some st"
    "predictions st = map (slot env cache) (enumerate 0 query)"
    by (rule forward_result)
  then show ?thesis by simp
qed

theorem response_aligned_witness:
  "\<exists>st. forward spec_example [''A'', ''B'', ''C''] [''A'' \<mapsto> 42] = Some st
     \<and> length (predictions st) = 3
     \<and> predictions st = [Some 42, None, Some (155 / 2)]"
  using response_aligned [of spec_example "[''A'', ''B'', ''C'']" "[''A'' \<mapsto> 42]"]
  by (auto simp: slot_def spec_example_def enumerate_simps accepted_def eval_score)


lemmas eval_forward =
  forward_def initial_state_def enumerate_simps subscript_def assign_def gather_def
  queue_retry_def store_def fallback_score_def eval_score

lemma item_events_keys:
  assumes "e \<in> set (item_events env cache y)"
  shows "event_pos e = fst y \<and> event_id e = snd y"
proof -
  from assms have "e \<in> set (partition_events env cache y) \<or> e \<in> set (first_wave_events env y)
      \<or> e \<in> set (retry_events env y)"
    by (auto simp: item_events_def split: if_splits)
  then show ?thesis
    using partition_events_keys first_wave_events_keys retry_events_keys by blast
qed

lemma item_events_cached:
  "cache pid = Some s \<Longrightarrow> item_events env cache (i, pid) = []"
  by (simp add: item_events_def partition_events_def dispatched_def)

lemma item_events_absent:
  "cache pid = None \<Longrightarrow> fetch_product_data env First i pid = None \<Longrightarrow>
   item_events env cache (i, pid) = [Lookup First i pid]"
  by (simp add: item_events_def partition_events_def dispatched_def)

lemma item_events_scored:
  "cache pid = None \<Longrightarrow> fetch_product_data env First i pid = Some r \<Longrightarrow>
   accepted (generate_review_score env First i r) = Some s \<Longrightarrow>
   item_events env cache (i, pid) = [Lookup First i pid, Invoke First i pid, Write i pid s]"
  by (simp add: item_events_def partition_events_def first_wave_events_def dispatched_def
      requeued_def attempt_score_def)

lemma item_events_vanished:
  "cache pid = None \<Longrightarrow> fetch_product_data env First i pid = Some r \<Longrightarrow>
   accepted (generate_review_score env First i r) = None \<Longrightarrow>
   fetch_product_data env Retry i pid = None \<Longrightarrow>
   item_events env cache (i, pid)
     = [Lookup First i pid, Invoke First i pid, Lookup Retry i pid]"
  by (simp add: item_events_def partition_events_def first_wave_events_def dispatched_def
      requeued_def attempt_score_def)

lemma item_events_retried:
  "cache pid = None \<Longrightarrow> fetch_product_data env First i pid = Some r \<Longrightarrow>
   accepted (generate_review_score env First i r) = None \<Longrightarrow>
   fetch_product_data env Retry i pid = Some r' \<Longrightarrow>
   item_events env cache (i, pid)
     = [Lookup First i pid, Invoke First i pid, Lookup Retry i pid, Invoke Retry i pid,
        Write i pid (case accepted (generate_review_score env Retry i r') of
                       Some s \<Rightarrow> s | None \<Rightarrow> fallback_score)]"
  by (simp add: item_events_def partition_events_def first_wave_events_def retry_events_def
      dispatched_def requeued_def attempt_score_def)

lemma item_events_shape:
  obtains (cached) "item_events env cache (i, pid) = []"
  | (absent) "item_events env cache (i, pid) = [Lookup First i pid]"
  | (scored) r s where "fetch_product_data env First i pid = Some r"
      "accepted (generate_review_score env First i r) = Some s"
      "item_events env cache (i, pid) = [Lookup First i pid, Invoke First i pid, Write i pid s]"
  | (vanished) "item_events env cache (i, pid)
      = [Lookup First i pid, Invoke First i pid, Lookup Retry i pid]"
  | (retried) r' where "fetch_product_data env Retry i pid = Some r'"
      "item_events env cache (i, pid)
       = [Lookup First i pid, Invoke First i pid, Lookup Retry i pid, Invoke Retry i pid,
          Write i pid (case accepted (generate_review_score env Retry i r') of
                         Some s \<Rightarrow> s | None \<Rightarrow> fallback_score)]"
proof (cases "cache pid")
  case (Some s)
  then show ?thesis using cached item_events_cached by metis
next
  case None
  note uncached = this
  show ?thesis
  proof (cases "fetch_product_data env First i pid")
    case None
    with uncached show ?thesis using absent item_events_absent by metis
  next
    case (Some r)
    note found = this
    show ?thesis
    proof (cases "accepted (generate_review_score env First i r)")
      case (Some s)
      with uncached found show ?thesis using scored item_events_scored by metis
    next
      case None
      note failed = this
      show ?thesis
      proof (cases "fetch_product_data env Retry i pid")
        case None
        with uncached found failed show ?thesis using vanished item_events_vanished by metis
      next
        case (Some r')
        with uncached found failed show ?thesis using retried item_events_retried by metis
      qed
    qed
  qed
qed

lemma invoked_position: "invoked a i e \<Longrightarrow> event_pos e = i"
  by (cases e) simp_all

lemma oracle_calls_trace:
  "oracle_calls a i (batch_trace env cache query)
   = (if i < length query then oracle_calls a i (item_events env cache (i, query ! i)) else 0)"
proof -
  have f: "filter (invoked a i) tr = filter (invoked a i) (filter (\<lambda>e. event_pos e = i) tr)"
    for tr
    by (induction tr) (auto dest: invoked_position)
  show ?thesis
  proof (cases "i < length query")
    case True
    have "filter (invoked a i) (batch_trace env cache query)
        = filter (invoked a i) (item_events env cache (i, query ! i))"
      by (subst f) (simp only: batch_trace_at_position [OF True])
    with True show ?thesis by (simp add: oracle_calls_def)
  next
    case False
    then have "filter (\<lambda>e. event_pos e = i) (batch_trace env cache query) = []"
      by (intro batch_trace_beyond) simp
    then have "filter (invoked a i) (batch_trace env cache query) = []"
      by (subst f) (simp only: filter.simps)
    with False show ?thesis by (simp add: oracle_calls_def)
  qed
qed















lemma unwritten_entry:
  "\<forall>e \<in> set tr. \<forall>j s. e \<noteq> Write j x s \<Longrightarrow> fold write_cache tr m x = m x"
proof (induction tr arbitrary: m)
  case Nil
  show ?case by simp
next
  case (Cons e tr)
  then have "fold write_cache tr (write_cache e m) x = write_cache e m x" by simp
  moreover have "write_cache e m x = m x" using Cons.prems by (cases e) auto
  ultimately show ?case by simp
qed

text \<open>
  Claim C6, as the code has it. For an item whose lookup in the partition loop returns
  nothing, the response slot is absent, no oracle invocation is made for the item in
  either wave, and no cache write is made for it. The cache entry of its id is left as it
  was whenever the lookup returns nothing at every position of the batch that holds this
  id.
\<close>

theorem absent_item_untouched:
  assumes "i < length query" and "cache (query ! i) = None"
    and "fetch_product_data env First i (query ! i) = None"
  shows "\<exists>st. forward env query cache = Some st
    \<and> predictions st ! i = None
    \<and> oracle_calls First i (trace st) = 0 \<and> oracle_calls Retry i (trace st) = 0
    \<and> (\<forall>pid s. Write i pid s \<notin> set (trace st))
    \<and> ((\<forall>j < length query. query ! j = query ! i
            \<longrightarrow> fetch_product_data env First j (query ! j) = None)
         \<longrightarrow> miner_preds st (query ! i) = cache (query ! i))"
proof -
  obtain st where st: "forward env query cache = Some st"
    "trace st = batch_trace env cache query"
    "predictions st = map (slot env cache) (enumerate 0 query)"
    "miner_preds st = fold write_cache (batch_trace env cache query) cache"
    by (rule forward_result)
  have ev: "item_events env cache (i, query ! i) = [Lookup First i (query ! i)]"
    using assms by (intro item_events_absent)
  have p: "predictions st ! i = None"
    using assms by (simp add: st nth_enumerate_eq slot_def)
  have c: "oracle_calls a i (trace st) = 0" for a
    using assms(1) unfolding st oracle_calls_trace ev by (simp add: oracle_calls_def)
  have w: "\<forall>pid s. Write i pid s \<notin> set (trace st)"
  proof (intro allI notI)
    fix pid s
    assume "Write i pid s \<in> set (trace st)"
    then have "Write i pid s \<in> set (filter (\<lambda>e. event_pos e = i) (batch_trace env cache query))"
      by (simp add: st)
    then show False by (simp add: batch_trace_at_position [OF assms(1)] ev)
  qed
  have m: "miner_preds st (query ! i) = cache (query ! i)"
    if all: "\<forall>j < length query. query ! j = query ! i
            \<longrightarrow> fetch_product_data env First j (query ! j) = None"
  proof -
    have "\<forall>e \<in> set (batch_trace env cache query). \<forall>j s. e \<noteq> Write j (query ! i) s"
    proof (intro ballI allI notI)
      fix e j s
      assume e: "e \<in> set (batch_trace env cache query)" "e = Write j (query ! i) s"
      then obtain k where k: "k < length query" "e \<in> set (item_events env cache (k, query ! k))"
        by (auto simp: batch_trace_member)
      then have "event_id e = query ! k" using item_events_keys by fastforce
      with e have same: "query ! k = query ! i" by simp
      with all k have "fetch_product_data env First k (query ! k) = None" by simp
      moreover have "cache (query ! k) = None" using same assms by simp
      ultimately have "item_events env cache (k, query ! k) = [Lookup First k (query ! k)]"
        by (intro item_events_absent)
      with k e show False by simp
    qed
    then show ?thesis unfolding st by (rule unwritten_entry)
  qed
  from st(1) p c [of First] c [of Retry] w m show ?thesis
    by (intro exI [of _ st] conjI impI)
qed

theorem absent_item_untouched_witness:
  "(1::nat) < length [''A'', ''B'', ''C'']
   \<and> [''A'' \<mapsto> 42] ([''A'', ''B'', ''C''] ! 1) = None
   \<and> fetch_product_data spec_example First 1 ([''A'', ''B'', ''C''] ! 1) = None
   \<and> (\<exists>st. forward spec_example [''A'', ''B'', ''C''] [''A'' \<mapsto> 42] = Some st
        \<and> predictions st ! 1 = None
        \<and> oracle_calls First 1 (trace st) = 0 \<and> oracle_calls Retry 1 (trace st) = 0
        \<and> miner_preds st ''B'' = None)"
proof -
  have h: "[''A'' \<mapsto> 42] ([''A'', ''B'', ''C''] ! 1) = (None :: score option)"
    "fetch_product_data spec_example First 1 ([''A'', ''B'', ''C''] ! 1) = None"
    by (simp_all add: spec_example_def)
  have u: "\<forall>j < length [''A'', ''B'', ''C''].
      [''A'', ''B'', ''C''] ! j = [''A'', ''B'', ''C''] ! 1
      \<longrightarrow> fetch_product_data spec_example First j ([''A'', ''B'', ''C''] ! j) = None"
    by (simp add: spec_example_def)
  show ?thesis
    using h u absent_item_untouched
      [of 1 "[''A'', ''B'', ''C'']" "[''A'' \<mapsto> 42]" spec_example, OF _ h]
    by auto
qed

theorem absent_lookup_id_cached_by_duplicate:
  "fetch_product_data (found_from 1 8) First 0 ([''B'', ''B''] ! 0) = None
   \<and> forward (found_from 1 8) [''B'', ''B''] Map.empty =
     Some \<lparr>predictions = [None, Some 80], miner_preds = [''B'' \<mapsto> 80],
       product_ids = [(1, ''B'')], tasks = [(1, ())],
       retry_tasks = [], retry_indices = [],
       trace = [Lookup First 0 ''B'', Lookup First 1 ''B'', Invoke First 1 ''B'',
                Write 1 ''B'' 80]\<rparr>
   \<and> [''B'' \<mapsto> 80] ''B'' \<noteq> (Map.empty ''B'' :: score option)"
  by (simp add: eval_forward found_from_def)


lemma events_of_cached:
  assumes "\<forall>y \<in> set ys. cache (snd y) \<noteq> None"
  shows "events_of env cache ys = []"
proof -
  have "partition_events env cache y = []" if "y \<in> set ys" for y
    using assms that by (cases y) (auto simp: partition_events_def)
  then have 1: "concat (map (partition_events env cache) ys) = []" by simp
  have "\<not> dispatched env cache y" if "y \<in> set ys" for y
    using assms that by (cases y) (auto simp: dispatched_def)
  then have 2: "filter (dispatched env cache) ys = []" by (simp add: filter_empty_conv)
  show ?thesis by (simp add: events_of_def 1 2)
qed

text \<open>
  Claim C8. For a product id that is in the cache with score \<open>s\<close> when the batch
  arrives, the response holds \<open>s\<close> at every position of that id, and the batch makes no
  call for the id: no lookup, no oracle invocation (and no cache write), so the entry is
  still \<open>s\<close> afterwards.
\<close>

theorem cached_id_served_from_cache:
  assumes "cache x = Some s"
  shows "\<exists>st. forward env query cache = Some st
    \<and> (\<forall>i < length query. query ! i = x \<longrightarrow> predictions st ! i = Some s)
    \<and> filter (\<lambda>e. event_id e = x) (trace st) = []
    \<and> miner_preds st x = Some s"
proof -
  obtain st where st: "forward env query cache = Some st"
    "trace st = batch_trace env cache query"
    "predictions st = map (slot env cache) (enumerate 0 query)"
    "miner_preds st = fold write_cache (batch_trace env cache query) cache"
    by (rule forward_result)
  have p: "\<forall>i < length query. query ! i = x \<longrightarrow> predictions st ! i = Some s"
    using assms by (simp add: st nth_enumerate_eq slot_def)
  have t: "filter (\<lambda>e. event_id e = x) (trace st) = []"
    unfolding st batch_trace_at_id by (rule events_of_cached) (simp add: assms)
  have "miner_preds st x
      = fold write_cache (filter (\<lambda>e. event_id e = x) (batch_trace env cache query)) cache x"
    unfolding st by (rule fold_write_cache_at) simp
  then have m: "miner_preds st x = Some s" using t assms by (simp add: st)
  from st(1) p t m show ?thesis by (intro exI [of _ st] conjI)
qed

theorem cached_id_served_from_cache_witness:
  "[''A'' \<mapsto> 42] ''A'' = Some (42 :: score)
   \<and> (\<exists>st. forward spec_example [''A'', ''B'', ''C''] [''A'' \<mapsto> 42] = Some st
        \<and> predictions st ! 0 = Some 42
        \<and> filter (\<lambda>e. event_id e = ''A'') (trace st) = []
        \<and> miner_preds st ''A'' = Some 42)"
  using cached_id_served_from_cache
    [of "[''A'' \<mapsto> 42]" "''A''" 42 spec_example "[''A'', ''B'', ''C'']"]
  by auto

lemma accepted_valid: "accepted r = Some s \<Longrightarrow> valid_score s"
  by (auto simp: accepted_def valid_score_def
      split: settled.splits sum.splits option.splits if_splits)

lemma fallback_valid: "valid_score fallback_score"
  by (simp add: valid_score_def fallback_score_def)

lemma item_write_valid:
  assumes "Write j pid s \<in> set (item_events env cache (i, x))"
  shows "valid_score s"
proof (cases rule: item_events_shape [of env cache i x])
  case cached
  with assms show ?thesis by simp
next
  case absent
  with assms show ?thesis by simp
next
  case (scored r v)
  with assms show ?thesis by (auto dest: accepted_valid)
next
  case vanished
  with assms show ?thesis by simp
next
  case (retried r')
  with assms show ?thesis
    by (auto simp: fallback_valid dest: accepted_valid split: option.splits)
qed

lemma trace_write_valid:
  assumes "Write j pid s \<in> set (batch_trace env cache query)"
  shows "valid_score s"
  using assms item_write_valid by (fastforce simp: batch_trace_member)

lemma fold_write_cache_valid:
  assumes "\<forall>j x s. Write j x s \<in> set tr \<longrightarrow> valid_score s"
    and "\<forall>x s. m x = Some s \<longrightarrow> valid_score s"
  shows "\<forall>x s. fold write_cache tr m x = Some s \<longrightarrow> valid_score s"
  using assms
proof (induction tr arbitrary: m)
  case Nil
  then show ?case by simp
next
  case (Cons e tr)
  have "\<forall>x s. write_cache e m x = Some s \<longrightarrow> valid_score s"
    using Cons.prems by (cases e) auto
  moreover have "\<forall>j x s. Write j x s \<in> set tr \<longrightarrow> valid_score s"
    using Cons.prems by simp
  ultimately have "\<forall>x s. fold write_cache tr (write_cache e m) x = Some s \<longrightarrow> valid_score s"
    by (rule Cons.IH [rotated])
  then show ?case by simp
qed

lemma slot_valid:
  assumes "slot env cache (i, x) = Some s" and "\<forall>x s. cache x = Some s \<longrightarrow> valid_score s"
  shows "valid_score s"
  using assms
  by (auto simp: slot_def fallback_valid dest: accepted_valid split: option.splits)

text \<open>
  Claim C9. Every value written into the score cache is a number within 0 and 100: a
  write of the first wave and a write of the retry wave follow the check, and the only
  other write is the fallback 50. Hence, when the cache holds only such values as the
  batch arrives (as the empty cache of a fresh process does), it holds only such values
  afterwards, and every score of the response, a cache hit included, is within 0 and 100.
\<close>

theorem cache_values_in_range:
  "\<exists>st. forward env query cache = Some st
    \<and> (\<forall>i pid s. Write i pid s \<in> set (trace st) \<longrightarrow> valid_score s)
    \<and> miner_preds st = fold write_cache (trace st) cache
    \<and> ((\<forall>x s. cache x = Some s \<longrightarrow> valid_score s)
         \<longrightarrow> (\<forall>x s. miner_preds st x = Some s \<longrightarrow> valid_score s)
           \<and> (\<forall>i s. i < length query \<and> predictions st ! i = Some s \<longrightarrow> valid_score s))"
proof -
  obtain st where st: "forward env query cache = Some st"
    "trace st = batch_trace env cache query"
    "predictions st = map (slot env cache) (enumerate 0 query)"
    "miner_preds st = fold write_cache (batch_trace env cache query) cache"
    by (rule forward_result)
  have w: "\<forall>i pid s. Write i pid s \<in> set (trace st) \<longrightarrow> valid_score s"
    using trace_write_valid by (auto simp: st)
  have f: "miner_preds st = fold write_cache (trace st) cache" by (simp add: st)
  have inv: "(\<forall>x s. cache x = Some s \<longrightarrow> valid_score s)
      \<longrightarrow> (\<forall>x s. miner_preds st x = Some s \<longrightarrow> valid_score s)
        \<and> (\<forall>i s. i < length query \<and> predictions st ! i = Some s \<longrightarrow> valid_score s)"
  proof (intro impI conjI)
    assume ok: "\<forall>x s. cache x = Some s \<longrightarrow> valid_score s"
    show "\<forall>x s. miner_preds st x = Some s \<longrightarrow> valid_score s"
      unfolding f using w ok by (rule fold_write_cache_valid)
    show "\<forall>i s. i < length query \<and> predictions st ! i = Some s \<longrightarrow> valid_score s"
    proof (intro allI impI, elim conjE)
      fix i s
      assume "i < length query" "predictions st ! i = Some s"
      then have "slot env cache (i, query ! i) = Some s" by (simp add: st nth_enumerate_eq)
      then show "valid_score s" using ok by (rule slot_valid)
    qed
  qed
  from st(1) w f inv show ?thesis by (intro exI [of _ st] conjI)
qed

theorem cache_values_in_range_witness:
  "\<exists>st. forward always_failing [''D''] Map.empty = Some st
     \<and> miner_preds st = fold write_cache (trace st) Map.empty
     \<and> valid_score 50 \<and> miner_preds st ''D'' = Some 50 \<and> predictions st ! 0 = Some 50"
proof -
  have e: "forward always_failing [''D''] Map.empty =
    Some \<lparr>predictions = [Some 50], miner_preds = [''D'' \<mapsto> 50],
      product_ids = [(0, ''D'')], tasks = [(0, ())],
      retry_tasks = [(0, ())], retry_indices = [(0, ''D'', 0)],
      trace = [Lookup First 0 ''D'', Invoke First 0 ''D'', Lookup Retry 0 ''D'',
               Invoke Retry 0 ''D'', Write 0 ''D'' 50]\<rparr>"
    by (simp add: eval_forward always_failing_def)
  show ?thesis
    using cache_values_in_range [of always_failing "[''D'']" Map.empty]
    by (auto simp: e)
qed

lemma get_overall_score_valid:
  assumes "in_float_range (breakdown b)"
  shows "\<exists>s. get_overall_score (Review b) = Inr (Some s) \<and> 0 \<le> s \<and> s \<le> 100"
proof -
  have "0 \<le> py_round2 (max 0 (min 100 (exact_sum (breakdown b))))
      \<and> py_round2 (max 0 (min 100 (exact_sum (breakdown b)))) \<le> 100"
    by (rule py_round2_range) simp_all
  then show ?thesis using assms by (simp add: get_overall_score_exact)
qed

lemma returned_score_valid:
  assumes "get_overall_score a = Inr (Some s)"
  shows "0 \<le> s \<and> s \<le> 100"
proof (cases a)
  case Other
  with assms show ?thesis by (simp add: get_overall_score_def)
next
  case (Review b)
  show ?thesis
  proof (cases "in_float_range (breakdown b)")
    case True
    then show ?thesis using get_overall_score_valid [of b] assms Review by auto
  next
    case False
    then show ?thesis using assms Review by (simp add: get_overall_score_overflow)
  qed
qed

lemma absent_score_other: "get_overall_score a = Inr None \<longleftrightarrow> a = Other"
proof (cases a)
  case Other
  then show ?thesis by (simp add: get_overall_score_def)
next
  case (Review b)
  then show ?thesis
    by (cases "in_float_range (breakdown b)")
      (simp_all add: get_overall_score_exact get_overall_score_overflow)
qed

text \<open>
  Claim C10, as the code has it. A breakdown is never rejected for criteria outside 0
  to 10 as long as every criterion is within the range of \<^verbatim>\<open>float\<close>: the aggregation
  clamps the sum and yields a score that passes the check, so the item is accepted and
  cached on the first attempt and no retry is made for it. Every score the aggregation
  returns is within 0 and 100, so the branch of line 121 is taken only when the
  aggregation returns nothing, that is for a result that is not of the schema type. A
  schema result with a criterion beyond the range of \<^verbatim>\<open>float\<close> makes the aggregation
  raise \<^verbatim>\<open>OverflowError\<close>; the handler of lines 132 to 138 queues a retry for it. After a
  first attempt that returned, a retry is made in these two cases only.
\<close>

theorem out_of_range_breakdown_accepted:
  assumes "i < length query" and "cache (query ! i) = None"
    and "fetch_product_data env First i (query ! i) = Some r"
    and "generate_review_score env First i r = Returned a"
  shows "\<exists>st. forward env query cache = Some st
    \<and> (\<forall>s. get_overall_score a = Inr (Some s) \<longrightarrow> 0 \<le> s \<and> s \<le> 100)
    \<and> (get_overall_score a = Inr None \<longleftrightarrow> a = Other)
    \<and> (oracle_calls Retry i (trace st) \<noteq> 0
         \<longrightarrow> a = Other \<or> (\<exists>b. a = Review b \<and> \<not> in_float_range (breakdown b)))
    \<and> (\<forall>b. a = Review b \<and> in_float_range (breakdown b) \<longrightarrow>
          (\<exists>s. get_overall_score a = Inr (Some s) \<and> 0 \<le> s \<and> s \<le> 100
             \<and> predictions st ! i = Some s
             \<and> Write i (query ! i) s \<in> set (trace st)
             \<and> oracle_calls Retry i (trace st) = 0))
    \<and> (\<forall>b. a = Review b \<and> \<not> in_float_range (breakdown b) \<longrightarrow>
          get_overall_score a = Inl OverflowError
          \<and> oracle_calls Retry i (trace st)
              = (if fetch_product_data env Retry i (query ! i) = None then 0 else 1))"
proof -
  obtain st where st: "forward env query cache = Some st"
    "trace st = batch_trace env cache query"
    "predictions st = map (slot env cache) (enumerate 0 query)"
    by (rule forward_result)
  have calls: "oracle_calls Retry i (trace st)
      = oracle_calls Retry i (item_events env cache (i, query ! i))"
    using assms(1) by (simp add: st oracle_calls_trace)
  have valid: "\<forall>s. get_overall_score a = Inr (Some s) \<longrightarrow> 0 \<le> s \<and> s \<le> 100"
    using returned_score_valid by blast
  have other: "get_overall_score a = Inr None \<longleftrightarrow> a = Other"
    by (rule absent_score_other)
  have schema: "\<forall>b. a = Review b \<and> in_float_range (breakdown b) \<longrightarrow>
          (\<exists>s. get_overall_score a = Inr (Some s) \<and> 0 \<le> s \<and> s \<le> 100
             \<and> predictions st ! i = Some s
             \<and> Write i (query ! i) s \<in> set (trace st)
             \<and> oracle_calls Retry i (trace st) = 0)"
  proof (intro allI impI, elim conjE)
    fix b
    assume a: "a = Review b" and f: "in_float_range (breakdown b)"
    obtain s where s: "get_overall_score (Review b) = Inr (Some s)" "0 \<le> s" "s \<le> 100"
      using get_overall_score_valid [OF f] by blast
    have acc: "accepted (Returned a) = Some s"
      using s a by (simp add: accepted_def)
    then have acc': "accepted (generate_review_score env First i r) = Some s"
      by (simp only: assms(4))
    have ev: "item_events env cache (i, query ! i)
        = [Lookup First i (query ! i), Invoke First i (query ! i), Write i (query ! i) s]"
      using assms(2,3) acc' by (rule item_events_scored)
    have "slot env cache (i, query ! i) = Some s"
      using assms(2,3) acc' by (simp add: slot_def)
    then have p: "predictions st ! i = Some s"
      using assms(1) by (simp add: st nth_enumerate_eq)
    have "Write i (query ! i) s \<in> set (item_events env cache (i, query ! i))"
      by (simp add: ev)
    then have w: "Write i (query ! i) s \<in> set (trace st)"
      unfolding st batch_trace_member using assms(1) by blast
    have c: "oracle_calls Retry i (trace st) = 0"
      unfolding calls ev by (simp add: oracle_calls_def)
    from s(1) have g: "get_overall_score a = Inr (Some s)" by (simp add: a)
    from g s(2,3) p w c
    show "\<exists>s. get_overall_score a = Inr (Some s) \<and> 0 \<le> s \<and> s \<le> 100
             \<and> predictions st ! i = Some s
             \<and> Write i (query ! i) s \<in> set (trace st)
             \<and> oracle_calls Retry i (trace st) = 0"
      by (intro exI [of _ s] conjI)
  qed
  have raising: "\<forall>b. a = Review b \<and> \<not> in_float_range (breakdown b) \<longrightarrow>
          get_overall_score a = Inl OverflowError
          \<and> oracle_calls Retry i (trace st)
              = (if fetch_product_data env Retry i (query ! i) = None then 0 else 1)"
  proof (intro allI impI, elim conjE)
    fix b
    assume a: "a = Review b" and f: "\<not> in_float_range (breakdown b)"
    have g: "get_overall_score a = Inl OverflowError"
      using f by (simp add: a get_overall_score_overflow)
    then have "accepted (Returned a) = None" by (simp add: accepted_def)
    then have acc: "accepted (generate_review_score env First i r) = None"
      by (simp only: assms(4))
    have "oracle_calls Retry i (trace st)
        = (if fetch_product_data env Retry i (query ! i) = None then 0 else 1)"
    proof (cases "fetch_product_data env Retry i (query ! i)")
      case None
      then have "item_events env cache (i, query ! i)
          = [Lookup First i (query ! i), Invoke First i (query ! i), Lookup Retry i (query ! i)]"
        using assms(2,3) acc by (intro item_events_vanished)
      with None show ?thesis unfolding calls by (simp add: oracle_calls_def)
    next
      case (Some r')
      then have "item_events env cache (i, query ! i)
          = [Lookup First i (query ! i), Invoke First i (query ! i), Lookup Retry i (query ! i),
             Invoke Retry i (query ! i),
             Write i (query ! i) (case accepted (generate_review_score env Retry i r') of
                         Some s \<Rightarrow> s | None \<Rightarrow> fallback_score)]"
        using assms(2,3) acc by (intro item_events_retried)
      with Some show ?thesis unfolding calls by (simp add: oracle_calls_def)
    qed
    with g show "get_overall_score a = Inl OverflowError
          \<and> oracle_calls Retry i (trace st)
              = (if fetch_product_data env Retry i (query ! i) = None then 0 else 1)"
      by (intro conjI)
  qed
  have retry: "oracle_calls Retry i (trace st) \<noteq> 0
         \<longrightarrow> a = Other \<or> (\<exists>b. a = Review b \<and> \<not> in_float_range (breakdown b))"
  proof (cases a)
    case Other
    then show ?thesis by simp
  next
    case (Review b)
    show ?thesis
    proof (cases "in_float_range (breakdown b)")
      case True
      have "oracle_calls Retry i (trace st) = 0"
        using schema [rule_format, OF conjI, OF Review True] by (elim exE conjE)
      then show ?thesis by simp
    next
      case False
      with Review show ?thesis by simp
    qed
  qed
  from st(1) valid other retry schema raising show ?thesis
    by (intro exI [of _ st] conjI)
qed

theorem out_of_range_breakdown_accepted_witness:
  "(0::nat) < length [''E''] \<and> Map.empty ([''E''] ! 0) = (None :: score option)
   \<and> fetch_product_data (always_scoring (- 3)) First 0 ([''E''] ! 0) = Some ()
   \<and> generate_review_score (always_scoring (- 3)) First 0 ()
       = Returned (Review \<lparr>product = ''P'', overall_score = 0, breakdown = uniform (- 3)\<rparr>)
   \<and> \<not> valid_breakdown (uniform (- 3)) \<and> in_float_range (uniform (- 3))
   \<and> exact_sum (uniform (- 3)) = - 33
   \<and> (\<exists>st. forward (always_scoring (- 3)) [''E''] Map.empty = Some st
        \<and> predictions st ! 0 = Some 0
        \<and> Write 0 ''E'' 0 \<in> set (trace st)
        \<and> oracle_calls Retry 0 (trace st) = 0)"
proof -
  let ?a = "Review \<lparr>product = ''P'', overall_score = 0, breakdown = uniform (- 3)\<rparr>"
  have h: "fetch_product_data (always_scoring (- 3)) First 0 ([''E''] ! 0) = Some ()"
    "generate_review_score (always_scoring (- 3)) First 0 () = Returned ?a"
    by (simp_all add: always_scoring_def)
  have f: "in_float_range (uniform (- 3))"
    by (simp add: in_float_range_def field_names_def uniform_def small_in_float_range)
  have x: "exact_sum (uniform (- 3)) = - 33"
    by (simp add: exact_sum_def field_names_def uniform_def spec_normalized_def)
  have g: "get_overall_score ?a = Inr (Some 0)"
    by (simp add: get_overall_score_exact f x py_round2_def)
  have v: "\<not> valid_breakdown (uniform (- 3))"
    by (simp add: valid_breakdown_def field_names_def uniform_def)
  show ?thesis
    using h v f x g out_of_range_breakdown_accepted
      [of 0 "[''E'']" Map.empty "always_scoring (- 3)" "()" ?a, OF _ _ h]
    by auto
qed

theorem huge_criterion_retried:
  "\<not> valid_breakdown (uniform huge)
   \<and> forward (always_scoring huge) [''E''] Map.empty =
     Some \<lparr>predictions = [Some 50], miner_preds = [''E'' \<mapsto> 50],
       product_ids = [(0, ''E'')], tasks = [(0, ())],
       retry_tasks = [(0, ())], retry_indices = [(0, ''E'', 0)],
       trace = [Lookup First 0 ''E'', Invoke First 0 ''E'', Lookup Retry 0 ''E'',
                Invoke Retry 0 ''E'', Write 0 ''E'' 50]\<rparr>"
proof -
  have "\<not> in_float_range (uniform huge)"
    by (simp add: in_float_range_def field_names_def uniform_def float_limit_def huge_def)
  then have g: "get_overall_score (Review \<lparr>product = ''P'', overall_score = 0,
      breakdown = uniform huge\<rparr>) = Inl OverflowError"
    by (simp add: get_overall_score_overflow)
  have v: "\<not> valid_breakdown (uniform huge)"
    by (simp add: valid_breakdown_def field_names_def uniform_def huge_def)
  have "forward (always_scoring huge) [''E''] Map.empty =
     Some \<lparr>predictions = [Some 50], miner_preds = [''E'' \<mapsto> 50],
       product_ids = [(0, ''E'')], tasks = [(0, ())],
       retry_tasks = [(0, ())], retry_indices = [(0, ''E'', 0)],
       trace = [Lookup First 0 ''E'', Invoke First 0 ''E'', Lookup Retry 0 ''E'',
                Invoke Retry 0 ''E'', Write 0 ''E'' 50]\<rparr>"
    by (simp add: forward_def initial_state_def enumerate_simps subscript_def assign_def
        gather_def queue_retry_def store_def fallback_score_def always_scoring_def g)
  with v show ?thesis by simp
qed

end
